theory Spec2Isabelle
  imports Main "HOL-Library.Word"
begin

section \<open>SimpleOS: constants and data structures (main.c, lines 15-71)\<close>

definition MAX_PROCESSES :: nat where "MAX_PROCESSES = 16"
definition MAX_FILES :: nat where "MAX_FILES = 32"
definition MAX_FILENAME_LEN :: nat where "MAX_FILENAME_LEN = 32"
definition MEMORY_SIZE :: nat where "MEMORY_SIZE = 65536"
definition PROCESS_MEMORY_SIZE :: nat where "PROCESS_MEMORY_SIZE = 4096"

text \<open>The number of entries of \<open>memory_map\<close>: \<open>MEMORY_SIZE / PROCESS_MEMORY_SIZE\<close>.\<close>

definition NUM_BLOCKS :: nat where "NUM_BLOCKS = MEMORY_SIZE div PROCESS_MEMORY_SIZE"

datatype ProcessState = PROCESS_READY | PROCESS_RUNNING | PROCESS_BLOCKED | PROCESS_TERMINATED

text \<open>
  The process control block. The field \<open>pid\<close> is the C field \<open>id\<close>, and in
  \<open>FileEntry\<close> the field \<open>fsize\<close> is the C field \<open>size\<close>. A \<open>char[32]\<close> is a list
  of 32 characters.
\<close>

record Process =
  pid :: "8 word"
  state :: ProcessState
  memory_start :: "16 word"
  memory_size :: "16 word"
  program_counter :: "16 word"
  name :: string

record FileEntry =
  filename :: string
  start_block :: "16 word"
  fsize :: "16 word"
  in_use :: bool

text \<open>
  The global \<open>simple_os\<close>. The byte array \<open>memory\<close> is left out: no function of the
  program reads or writes it.
\<close>

record OS =
  memory_map :: "bool list"
  processes :: "Process list"
  current_process :: "8 word"
  process_count :: "8 word"
  file_table :: "FileEntry list"
  system_running :: bool

abbreviation NUL :: char where "NUL \<equiv> CHR 0x00"

text \<open>
  A \<open>const char*\<close> argument is the list of the characters it points to; the terminating
  NUL is the first NUL of the list or, when the list has none, follows its last
  character. No loop of the program reads an argument beyond its terminator.
\<close>

definition char_at :: "string \<Rightarrow> nat \<Rightarrow> char" where
  "char_at str j = (if j < length str then str ! j else NUL)"

section \<open>Memory management (lines 73-99)\<close>

definition memory_init :: "OS \<Rightarrow> OS" where
  "memory_init s = fold (\<lambda>i s. s\<lparr>memory_map := (memory_map s)[i := False]\<rparr>) [0..<NUM_BLOCKS] s"

text \<open>
  The loop of \<open>memory_allocate\<close> from index \<open>i\<close> on. The result is the \<open>uint16_t\<close>
  the function returns, \<open>0xFFFF\<close> when no block is free.
\<close>

function memory_allocate_loop :: "nat \<Rightarrow> OS \<Rightarrow> 16 word \<times> OS" where
  "memory_allocate_loop i s =
     (if i < NUM_BLOCKS then
        (if \<not> memory_map s ! i
         then (word_of_nat (i * PROCESS_MEMORY_SIZE), s\<lparr>memory_map := (memory_map s)[i := True]\<rparr>)
         else memory_allocate_loop (i + 1) s)
      else (0xFFFF, s))"
  by pat_completeness auto
termination
  by (relation "measure (\<lambda>(i, s). NUM_BLOCKS - i)") auto

declare memory_allocate_loop.simps [simp del]

definition memory_allocate :: "OS \<Rightarrow> 16 word \<times> OS" where
  "memory_allocate s = memory_allocate_loop 0 s"

definition memory_free :: "16 word \<Rightarrow> OS \<Rightarrow> OS" where
  "memory_free start_address s =
     (let block = unat start_address div PROCESS_MEMORY_SIZE
      in if block < NUM_BLOCKS then s\<lparr>memory_map := (memory_map s)[block := False]\<rparr> else s)"

section \<open>Process management (lines 101-192)\<close>

definition process_init :: "OS \<Rightarrow> OS" where
  "process_init s =
     fold (\<lambda>i s. s\<lparr>processes := (processes s)[i := (processes s ! i)\<lparr>state := PROCESS_TERMINATED\<rparr>]\<rparr>)
       [0..<MAX_PROCESSES] (s\<lparr>process_count := 0, current_process := 0\<rparr>)"

text \<open>The errors of the operations, one for each kind of error return of the program.\<close>

datatype os_error = TableFull | OutOfMemory | AlreadyExists

text \<open>The slot search of \<open>process_create\<close>: the first index from \<open>p\<close> on whose slot is terminated.\<close>

function find_slot_loop :: "nat \<Rightarrow> OS \<Rightarrow> nat" where
  "find_slot_loop p s =
     (if p < MAX_PROCESSES \<and> state (processes s ! p) \<noteq> PROCESS_TERMINATED
      then find_slot_loop (p + 1) s else p)"
  by pat_completeness auto
termination
  by (relation "measure (\<lambda>(p, s). MAX_PROCESSES - p)") auto

declare find_slot_loop.simps [simp del]

text \<open>
  The copy loops of \<open>process_create\<close> (line 146) and \<open>fs_create\<close> (line 240), which are
  the same loop: characters are copied while the source has not ended and \<open>i < 31\<close>.
  The result is the index reached and the destination array.
\<close>

function copy_name_loop :: "string \<Rightarrow> nat \<Rightarrow> string \<Rightarrow> nat \<times> string" where
  "copy_name_loop src i dst =
     (if char_at src i \<noteq> NUL \<and> i < 31
      then copy_name_loop src (i + 1) (dst[i := char_at src i]) else (i, dst))"
  by pat_completeness auto
termination
  by (relation "measure (\<lambda>(src, i, dst). 31 - i)") auto

declare copy_name_loop.simps [simp del]

definition copy_name :: "string \<Rightarrow> string \<Rightarrow> string" where
  "copy_name src dst = (case copy_name_loop src 0 dst of (i, dst') \<Rightarrow> dst'[i := NUL])"

text \<open>
  \<open>process_create\<close>. The C function returns \<open>0xFF\<close> at each of its three error
  returns; the model names them: \<open>TableFull\<close> for ``max processes reached'' and ``no free
  process slots'', \<open>OutOfMemory\<close> for ``out of memory''. \<open>create_code\<close> gives the byte
  the C function returns.
\<close>

definition process_create :: "string \<Rightarrow> OS \<Rightarrow> (os_error + 8 word) \<times> OS" where
  "process_create nm s =
     (if unat (process_count s) \<ge> MAX_PROCESSES then (Inl TableFull, s)
      else let p = find_slot_loop 0 s in
        if p \<ge> MAX_PROCESSES then (Inl TableFull, s)
        else case memory_allocate s of (mem_start, s1) \<Rightarrow>
          if mem_start = 0xFFFF then (Inl OutOfMemory, s1)
          else
            let pr = (processes s1 ! p)
                  \<lparr>pid := word_of_nat p, state := PROCESS_READY, memory_start := mem_start,
                   memory_size := word_of_nat PROCESS_MEMORY_SIZE, program_counter := 0\<rparr>;
                pr' = pr\<lparr>name := copy_name nm (name pr)\<rparr>
            in (Inr (word_of_nat p),
                s1\<lparr>processes := (processes s1)[p := pr'], process_count := process_count s1 + 1\<rparr>))"

definition create_code :: "os_error + 8 word \<Rightarrow> 8 word" where
  "create_code r = (case r of Inl e \<Rightarrow> 0xFF | Inr p \<Rightarrow> p)"

definition process_terminate :: "8 word \<Rightarrow> OS \<Rightarrow> OS" where
  "process_terminate p s =
     (if unat p \<ge> MAX_PROCESSES \<or> state (processes s ! unat p) = PROCESS_TERMINATED then s
      else
        let s1 = memory_free (memory_start (processes s ! unat p)) s
        in s1\<lparr>processes := (processes s1)[unat p := (processes s1 ! unat p)\<lparr>state := PROCESS_TERMINATED\<rparr>],
              process_count := process_count s1 - 1\<rparr>)"

text \<open>
  The body of the loop of \<open>process_schedule\<close> once a ready slot is found (lines 180-188):
  the current process, if running, becomes ready, and \<open>next_process\<close> becomes the
  current process and runs.
\<close>

definition switch_to :: "nat \<Rightarrow> OS \<Rightarrow> OS" where
  "switch_to next_process s =
     (let cur = unat (current_process s);
          s1 = (if state (processes s ! cur) = PROCESS_RUNNING
                then s\<lparr>processes := (processes s)[cur := (processes s ! cur)\<lparr>state := PROCESS_READY\<rparr>]\<rparr>
                else s);
          s2 = s1\<lparr>current_process := word_of_nat next_process\<rparr>
      in s2\<lparr>processes := (processes s2)[next_process := (processes s2 ! next_process)\<lparr>state := PROCESS_RUNNING\<rparr>]\<rparr>)"

text \<open>
  The loop of \<open>process_schedule\<close>. It ends only when \<open>next_process\<close> meets
  \<open>current_process\<close> or a ready slot; \<open>None\<close> is the loop that runs forever.
  \<open>next_process\<close> is always the result of \<open>% MAX_PROCESSES\<close>, computed on \<open>int\<close>.
\<close>

partial_function (option) schedule_loop :: "nat \<Rightarrow> OS \<Rightarrow> OS option" where
  "schedule_loop next_process s =
     (if next_process \<noteq> unat (current_process s) then
        (if state (processes s ! next_process) = PROCESS_READY
         then Some (switch_to next_process s)
         else schedule_loop ((next_process + 1) mod MAX_PROCESSES) s)
      else Some s)"

declare schedule_loop.simps [code]

definition process_schedule :: "OS \<Rightarrow> OS option" where
  "process_schedule s =
     (if process_count s = 0 then Some s
      else schedule_loop ((unat (current_process s) + 1) mod MAX_PROCESSES) s)"

section \<open>File system (lines 194-274)\<close>

definition fs_init :: "OS \<Rightarrow> OS" where
  "fs_init s = fold (\<lambda>i s. s\<lparr>file_table := (file_table s)[i := (file_table s ! i)\<lparr>in_use := False\<rparr>]\<rparr>) [0..<MAX_FILES] s"

text \<open>The search for a free entry (line 207): the index of the first entry not in use, or \<open>-1\<close>.\<close>

function fs_find_free_loop :: "nat \<Rightarrow> OS \<Rightarrow> int" where
  "fs_find_free_loop i s =
     (if i < MAX_FILES then
        (if \<not> in_use (file_table s ! i) then int i else fs_find_free_loop (i + 1) s)
      else -1)"
  by pat_completeness auto
termination
  by (relation "measure (\<lambda>(i, s). MAX_FILES - i)") auto

declare fs_find_free_loop.simps [simp del]

text \<open>
  The comparison loop over \<open>j\<close> (lines 222-230 and 258-266): the value of \<open>match\<close> when
  the loop ends. \<open>stored\<close> is the \<open>filename\<close> array of the table entry.
\<close>

function name_match_loop :: "string \<Rightarrow> string \<Rightarrow> nat \<Rightarrow> bool" where
  "name_match_loop stored fname j =
     (if j < MAX_FILENAME_LEN then
        (if stored ! j \<noteq> char_at fname j then False
         else if char_at fname j = NUL then True
         else name_match_loop stored fname (j + 1))
      else True)"
  by pat_completeness auto
termination
  by (relation "measure (\<lambda>(stored, fname, j). MAX_FILENAME_LEN - j)") auto

declare name_match_loop.simps [simp del]

text \<open>The duplicate check of \<open>fs_create\<close> (line 219): whether the loop returns \<open>-2\<close>.\<close>

function fs_exists_loop :: "nat \<Rightarrow> string \<Rightarrow> OS \<Rightarrow> bool" where
  "fs_exists_loop i fname s =
     (if i < MAX_FILES then
        (if in_use (file_table s ! i) \<and> name_match_loop (filename (file_table s ! i)) fname 0
         then True else fs_exists_loop (i + 1) fname s)
      else False)"
  by pat_completeness auto
termination
  by (relation "measure (\<lambda>(i, fname, s). MAX_FILES - i)") auto

declare fs_exists_loop.simps [simp del]

text \<open>
  \<open>fs_create\<close>: \<open>TableFull\<close> is the return of \<open>-1\<close>, \<open>AlreadyExists\<close> the return
  of \<open>-2\<close>; \<open>fs_create_code\<close> gives the \<open>int\<close> the C function returns.
\<close>

definition fs_create :: "string \<Rightarrow> OS \<Rightarrow> (os_error + nat) \<times> OS" where
  "fs_create fname s =
     (let file_id = fs_find_free_loop 0 s in
      if file_id = -1 then (Inl TableFull, s)
      else if fs_exists_loop 0 fname s then (Inl AlreadyExists, s)
      else
        let file = file_table s ! nat file_id;
            file' = file\<lparr>filename := copy_name fname (filename file), start_block := 0,
                         fsize := 0, in_use := True\<rparr>
        in (Inr (nat file_id), s\<lparr>file_table := (file_table s)[nat file_id := file']\<rparr>))"

definition fs_create_code :: "os_error + nat \<Rightarrow> int" where
  "fs_create_code r = (case r of Inl TableFull \<Rightarrow> -1 | Inl _ \<Rightarrow> -2 | Inr i \<Rightarrow> int i)"

function fs_delete_loop :: "nat \<Rightarrow> string \<Rightarrow> OS \<Rightarrow> bool \<times> OS" where
  "fs_delete_loop i fname s =
     (if i < MAX_FILES then
        (if in_use (file_table s ! i) \<and> name_match_loop (filename (file_table s ! i)) fname 0
         then (True, s\<lparr>file_table := (file_table s)[i := (file_table s ! i)\<lparr>in_use := False\<rparr>]\<rparr>)
         else fs_delete_loop (i + 1) fname s)
      else (False, s))"
  by pat_completeness auto
termination
  by (relation "measure (\<lambda>(i, fname, s). MAX_FILES - i)") auto

declare fs_delete_loop.simps [simp del]

definition fs_delete :: "string \<Rightarrow> OS \<Rightarrow> bool \<times> OS" where
  "fs_delete fname s = fs_delete_loop 0 fname s"

section \<open>System initialization (lines 427-438)\<close>

text \<open>The global \<open>simple_os\<close> before \<open>os_init\<close>: an object of static storage, all zero.\<close>

definition zero_os :: OS where
  "zero_os =
     \<lparr>memory_map = replicate NUM_BLOCKS False,
      processes = replicate MAX_PROCESSES
        \<lparr>pid = 0, state = PROCESS_READY, memory_start = 0, memory_size = 0,
         program_counter = 0, name = replicate 32 NUL\<rparr>,
      current_process = 0,
      process_count = 0,
      file_table = replicate MAX_FILES
        \<lparr>filename = replicate MAX_FILENAME_LEN NUL, start_block = 0, fsize = 0, in_use = False\<rparr>,
      system_running = False\<rparr>"

definition os_init :: OS where
  "os_init = (fs_init (process_init (memory_init zero_os)))\<lparr>system_running := True\<rparr>"

section \<open>States used in examples\<close>

text \<open>A process slot and a file entry as \<open>os_init\<close> leaves them.\<close>

definition terminated_slot :: Process where
  "terminated_slot = \<lparr>pid = 0, state = PROCESS_TERMINATED, memory_start = 0, memory_size = 0,
         program_counter = 0, name = replicate 32 NUL\<rparr>"

definition free_entry :: FileEntry where
  "free_entry = \<lparr>filename = replicate 32 NUL, start_block = 0, fsize = 0, in_use = False\<rparr>"

text \<open>The initialized system after \<open>NUM_BLOCKS\<close> calls of \<open>memory_allocate\<close>: every block is used.\<close>

definition all_used :: OS where
  "all_used = ((\<lambda>s. snd (memory_allocate s)) ^^ NUM_BLOCKS) os_init"

text \<open>The initialized system after one call of \<open>memory_allocate\<close>.\<close>

definition block0_used :: OS where
  "block0_used = snd (memory_allocate os_init)"

text \<open>A slot holds a live process when its state is not \<open>PROCESS_TERMINATED\<close>.\<close>

definition live :: "Process \<Rightarrow> bool" where
  "live p = (state p \<noteq> PROCESS_TERMINATED)"

text \<open>The stored process count is the number of live slots of a table of \<open>MAX_PROCESSES\<close> slots.\<close>

definition count_inv :: "OS \<Rightarrow> bool" where
  "count_inv s = (length (processes s) = MAX_PROCESSES
     \<and> unat (process_count s) = length (filter live (processes s)))"

text \<open>The initialized system after \<open>process_create("shell")\<close>.\<close>

definition shell_created :: OS where
  "shell_created = snd (process_create ''shell'' os_init)"

text \<open>The state \<open>process_create\<close> leaves when it takes slot \<open>k\<close> and memory block \<open>b\<close>.\<close>

definition install_process :: "nat \<Rightarrow> nat \<Rightarrow> string \<Rightarrow> OS \<Rightarrow> OS" where
  "install_process k b nm s =
     s\<lparr>memory_map := (memory_map s)[b := True],
       processes := (processes s)[k := (processes s ! k)
          \<lparr>pid := word_of_nat k, state := PROCESS_READY,
           memory_start := word_of_nat (b * PROCESS_MEMORY_SIZE),
           memory_size := word_of_nat PROCESS_MEMORY_SIZE, program_counter := 0,
           name := copy_name nm (name (processes s ! k))\<rparr>],
       process_count := process_count s + 1\<rparr>"

section \<open>Reachable states and invariants\<close>

text \<open>
  The states the process operations reach from the initialized system. A step of
  \<open>process_schedule\<close> is a call that returns.
\<close>

inductive proc_reachable :: "OS \<Rightarrow> bool" where
  init: "proc_reachable os_init"
| create: "proc_reachable s \<Longrightarrow> proc_reachable (snd (process_create nm s))"
| terminate: "proc_reachable s \<Longrightarrow> proc_reachable (process_terminate p s)"
| schedule: "proc_reachable s \<Longrightarrow> process_schedule s = Some s' \<Longrightarrow> proc_reachable s'"

text \<open>Only the slot \<open>current_process\<close>, which is in range, may hold a running process.\<close>

definition running_inv :: "OS \<Rightarrow> bool" where
  "running_inv s = (length (processes s) = MAX_PROCESSES
     \<and> unat (current_process s) < MAX_PROCESSES
     \<and> (\<forall>i<MAX_PROCESSES. state (processes s ! i) = PROCESS_RUNNING \<longrightarrow> i = unat (current_process s)))"

text \<open>
  The initialized system after \<open>process_create("a")\<close>, \<open>process_create("b")\<close>, and then
  after a call of \<open>process_schedule\<close>.
\<close>

definition two_created :: OS where
  "two_created = snd (process_create ''b'' (snd (process_create ''a'' os_init)))"

definition two_scheduled :: OS where
  "two_scheduled = the (process_schedule two_created)"

text \<open>A run of \<open>process_create\<close> calls, one for each name: the results in order and the final state.\<close>

fun create_many :: "string list \<Rightarrow> OS \<Rightarrow> (os_error + 8 word) list \<times> OS" where
  "create_many [] s = ([], s)"
| "create_many (nm # nms) s =
     (case process_create nm s of (r, s') \<Rightarrow>
        (case create_many nms s' of (rs, s'') \<Rightarrow> (r # rs, s'')))"

text \<open>
  The first \<open>k\<close> slots hold live processes, slot \<open>i\<close> owning memory block \<open>i\<close>, and
  the other slots and blocks are free.
\<close>

definition full_upto :: "nat \<Rightarrow> OS \<Rightarrow> bool" where
  "full_upto k s = (length (processes s) = MAX_PROCESSES \<and> length (memory_map s) = NUM_BLOCKS
     \<and> unat (process_count s) = k
     \<and> (\<forall>i<MAX_PROCESSES.
          (i < k \<longrightarrow> state (processes s ! i) \<noteq> PROCESS_TERMINATED
                   \<and> memory_start (processes s ! i) = word_of_nat (i * PROCESS_MEMORY_SIZE)
                   \<and> memory_map s ! i)
        \<and> (k \<le> i \<longrightarrow> state (processes s ! i) = PROCESS_TERMINATED \<and> \<not> memory_map s ! i)))"

section \<open>File names and file-table states\<close>

text \<open>The C string an array or an argument holds: its characters up to the first NUL.\<close>

definition cstr :: "string \<Rightarrow> string" where
  "cstr str = takeWhile (\<lambda>c. c \<noteq> NUL) str"

text \<open>
  A well-formed file table: \<open>MAX_FILES\<close> entries, each with a name array of
  \<open>MAX_FILENAME_LEN\<close> characters that holds a NUL.
\<close>

definition files_wf :: "OS \<Rightarrow> bool" where
  "files_wf s = (length (file_table s) = MAX_FILES
     \<and> list_all (\<lambda>e. length (filename e) = MAX_FILENAME_LEN \<and> NUL \<in> set (filename e)) (file_table s))"

text \<open>The states the file operations reach from the initialized system.\<close>

inductive fs_reachable :: "OS \<Rightarrow> bool" where
  fs_init: "fs_reachable os_init"
| fs_created: "fs_reachable s \<Longrightarrow> fs_reachable (snd (fs_create fname s))"
| fs_deleted: "fs_reachable s \<Longrightarrow> fs_reachable (snd (fs_delete fname s))"

text \<open>The entry \<open>fs_create\<close> writes into slot \<open>i\<close> for the name \<open>fname\<close>.\<close>

definition new_entry :: "string \<Rightarrow> nat \<Rightarrow> OS \<Rightarrow> FileEntry" where
  "new_entry fname i s =
     (file_table s ! i)\<lparr>filename := copy_name fname (filename (file_table s ! i)),
                        start_block := 0, fsize := 0, in_use := True\<rparr>"

text \<open>
  A name of 32 characters, longer than the 31 characters a name array stores, and the
  initialized system after one and after two calls of \<open>fs_create\<close> with it.
\<close>

definition long_name :: string where
  "long_name = replicate 32 (CHR ''a'')"

definition long_created :: OS where
  "long_created = snd (fs_create long_name os_init)"

definition long_created_twice :: OS where
  "long_created_twice = snd (fs_create long_name long_created)"

text \<open>The initialized system after \<open>fs_create("a")\<close>.\<close>

definition file_a_created :: OS where
  "file_a_created = snd (fs_create ''a'' os_init)"

text \<open>A run of \<open>fs_create\<close> calls, one for each name: the results in order and the final state.\<close>

fun fs_create_many :: "string list \<Rightarrow> OS \<Rightarrow> (os_error + nat) list \<times> OS" where
  "fs_create_many [] s = ([], s)"
| "fs_create_many (nm # nms) s =
     (case fs_create nm s of (r, s') \<Rightarrow>
        (case fs_create_many nms s' of (rs, s'') \<Rightarrow> (r # rs, s'')))"

text \<open>
  The first \<open>length nms\<close> entries of a well-formed table are in use and hold the names
  \<open>nms\<close> in order; the other entries are free.
\<close>

definition files_upto :: "string list \<Rightarrow> OS \<Rightarrow> bool" where
  "files_upto nms s = (files_wf s \<and> length nms \<le> MAX_FILES
     \<and> (\<forall>i<MAX_FILES. if i < length nms
            then in_use (file_table s ! i) \<and> cstr (filename (file_table s ! i)) = nms ! i
            else \<not> in_use (file_table s ! i)))"

text \<open>
  \<open>MAX_FILES\<close> different names, of 0 to 31 characters, and the initialized system after
  \<open>fs_create\<close> of each of them: a full file table.
\<close>

definition file_names :: "string list" where
  "file_names = map (\<lambda>i. replicate i (CHR ''x'')) [0..<MAX_FILES]"

definition full_table :: OS where
  "full_table = snd (fs_create_many file_names os_init)"

text \<open>No two entries in use hold the same name.\<close>

definition names_unique :: "OS \<Rightarrow> bool" where
  "names_unique s = (\<forall>i<MAX_FILES. \<forall>j<MAX_FILES.
     in_use (file_table s ! i) \<and> in_use (file_table s ! j)
     \<and> cstr (filename (file_table s ! i)) = cstr (filename (file_table s ! j)) \<longrightarrow> i = j)"

text \<open>
  The states the file operations reach when every name created has at most
  \<open>MAX_FILENAME_LEN - 1\<close> characters, so that it is stored whole.
\<close>

inductive fs_reachable_short :: "OS \<Rightarrow> bool" where
  short_init: "fs_reachable_short os_init"
| short_created: "fs_reachable_short s \<Longrightarrow> length (cstr fname) \<le> MAX_FILENAME_LEN - 1
     \<Longrightarrow> fs_reachable_short (snd (fs_create fname s))"
| short_deleted: "fs_reachable_short s \<Longrightarrow> fs_reachable_short (snd (fs_delete fname s))"

section \<open>Constants and the initialized system\<close>

lemma consts_simps: "NUM_BLOCKS = 16" "MAX_PROCESSES = 16" "MAX_FILES = 32" "MAX_FILENAME_LEN = 32" "PROCESS_MEMORY_SIZE = 4096"
  by (simp_all add: NUM_BLOCKS_def MAX_PROCESSES_def MAX_FILES_def MAX_FILENAME_LEN_def PROCESS_MEMORY_SIZE_def MEMORY_SIZE_def)

lemma fold_update_replicate:
  "n \<le> m \<Longrightarrow> fold (\<lambda>i xs. xs[i := f (xs ! i)]) [0..<n] (replicate m x) = replicate n (f x) @ replicate (m - n) x"
proof (induction n)
  case 0 then show ?case by simp
next
  case (Suc n)
  then have "fold (\<lambda>i xs. xs[i := f (xs ! i)]) [0..<Suc n] (replicate m x)
      = (replicate n (f x) @ replicate (m - n) x)[n := f ((replicate n (f x) @ replicate (m - n) x) ! n)]"
    by simp
  also have "\<dots> = replicate n (f x) @ (replicate (m - n) x)[0 := f x]"
    using Suc.prems by (simp add: list_update_append nth_append)
  also have "replicate (m - n) x = x # replicate (m - Suc n) x"
    using Suc.prems by (cases "m - n") (auto simp: Suc_diff_Suc)
  finally show ?case by (simp add: replicate_append_same)
qed

lemma fold_memory_map:
  "fold (\<lambda>i s. s\<lparr>memory_map := (memory_map s)[i := f (memory_map s ! i)]\<rparr>) js s
     = s\<lparr>memory_map := fold (\<lambda>i xs. xs[i := f (xs ! i)]) js (memory_map s)\<rparr>"
  by (induction js arbitrary: s) simp_all

lemma fold_processes:
  "fold (\<lambda>i s. s\<lparr>processes := (processes s)[i := f (processes s ! i)]\<rparr>) js s
     = s\<lparr>processes := fold (\<lambda>i xs. xs[i := f (xs ! i)]) js (processes s)\<rparr>"
  by (induction js arbitrary: s) simp_all

lemma fold_file_table:
  "fold (\<lambda>i s. s\<lparr>file_table := (file_table s)[i := f (file_table s ! i)]\<rparr>) js s
     = s\<lparr>file_table := fold (\<lambda>i xs. xs[i := f (xs ! i)]) js (file_table s)\<rparr>"
  by (induction js arbitrary: s) simp_all

lemma os_init_eq:
  "os_init = \<lparr>memory_map = replicate 16 False, processes = replicate 16 terminated_slot,
     current_process = 0, process_count = 0, file_table = replicate 32 free_entry,
     system_running = True\<rparr>"
proof -
  have "fold (\<lambda>i xs. xs[i := False]) [0..<NUM_BLOCKS] (replicate NUM_BLOCKS False) = replicate NUM_BLOCKS False"
    using fold_update_replicate [of NUM_BLOCKS NUM_BLOCKS "\<lambda>_. False" False] by simp
  then have m: "memory_init zero_os = zero_os"
    unfolding memory_init_def using fold_memory_map [of "\<lambda>_. False" "[0..<NUM_BLOCKS]" zero_os]
    by (simp add: zero_os_def)
  have p: "process_init zero_os = zero_os\<lparr>processes := replicate 16 terminated_slot\<rparr>"
    unfolding process_init_def
    using fold_processes [of "\<lambda>p. p\<lparr>state := PROCESS_TERMINATED\<rparr>" "[0..<MAX_PROCESSES]" "zero_os\<lparr>process_count := 0, current_process := 0\<rparr>"]
    by (simp add: fold_update_replicate zero_os_def terminated_slot_def consts_simps)
  have f: "fs_init s = s" if "file_table s = replicate 32 free_entry" for s
    unfolding fs_init_def
    using fold_file_table [of "\<lambda>e. e\<lparr>in_use := False\<rparr>" "[0..<MAX_FILES]" s] that
    by (simp add: fold_update_replicate free_entry_def consts_simps)
  have "fs_init (process_init (memory_init zero_os)) = zero_os\<lparr>processes := replicate 16 terminated_slot\<rparr>"
    unfolding m p by (rule f) (simp add: zero_os_def free_entry_def consts_simps)
  then show ?thesis
    by (simp add: os_init_def zero_os_def consts_simps free_entry_def)
qed

lemma os_init_fields:
  "memory_map os_init = replicate 16 False"
  "processes os_init = replicate 16 terminated_slot"
  "current_process os_init = 0"
  "process_count os_init = 0"
  "file_table os_init = replicate 32 free_entry"
  by (simp_all add: os_init_eq)


section \<open>The block allocator\<close>

lemma unat_of_nat16: "n < 65536 \<Longrightarrow> unat (word_of_nat n :: 16 word) = n"
  by (simp add: unat_of_nat take_bit_nat_eq_self)

lemma unat_of_nat8: "n < 256 \<Longrightarrow> unat (word_of_nat n :: 8 word) = n"
  by (simp add: unat_of_nat take_bit_nat_eq_self)

lemma unat_succ8: "unat (c :: 8 word) < 16 \<Longrightarrow> unat (c + 1) = unat c + 1"
  using unat_add_lem [of c 1] by simp

lemma unat_pred8: "0 < unat (c :: 8 word) \<Longrightarrow> unat (c - 1) = unat c - 1"
  using unat_gt_0 [of c] by (simp add: unat_minus_one)

lemma block_offset_unat: "i < 16 \<Longrightarrow> unat (word_of_nat (i * 4096) :: 16 word) = i * 4096"
  by (rule unat_of_nat16) simp

lemma block_offset_not_sentinel: "i < 16 \<Longrightarrow> (word_of_nat (i * 4096) :: 16 word) \<noteq> 0xFFFF"
proof
  assume i: "i < 16" and e: "(word_of_nat (i * 4096) :: 16 word) = 0xFFFF"
  from e have "unat (word_of_nat (i * 4096) :: 16 word) = unat (0xFFFF :: 16 word)" by (rule arg_cong)
  with i have "i * 4096 = 65535" by (simp only: block_offset_unat) simp
  then have "(i * 4096) mod 4096 = 65535 mod (4096::nat)" by (rule arg_cong)
  then show False by simp
qed

lemma alloc_loop_found:
  "i \<le> k \<Longrightarrow> k < NUM_BLOCKS \<Longrightarrow> \<not> memory_map s ! k \<Longrightarrow> (\<forall>j. i \<le> j \<and> j < k \<longrightarrow> memory_map s ! j)
   \<Longrightarrow> memory_allocate_loop i s = (word_of_nat (k * PROCESS_MEMORY_SIZE), s\<lparr>memory_map := (memory_map s)[k := True]\<rparr>)"
proof (induction i s rule: memory_allocate_loop.induct)
  case (1 i s)
  show ?case
  proof (cases "i = k")
    case True
    with "1.prems" show ?thesis by (simp add: memory_allocate_loop.simps [of k s])
  next
    case False
    with "1.prems" have lt: "i < k" and used: "memory_map s ! i" by auto
    from lt "1.prems" have "i < NUM_BLOCKS" by simp
    moreover have "memory_allocate_loop (i + 1) s = (word_of_nat (k * PROCESS_MEMORY_SIZE), s\<lparr>memory_map := (memory_map s)[k := True]\<rparr>)"
      using "1.IH" [OF \<open>i < NUM_BLOCKS\<close>] used lt "1.prems" by auto
    ultimately show ?thesis using used by (simp add: memory_allocate_loop.simps [of i s])
  qed
qed

lemma alloc_loop_full:
  "(\<forall>j. i \<le> j \<and> j < NUM_BLOCKS \<longrightarrow> memory_map s ! j) \<Longrightarrow> memory_allocate_loop i s = (0xFFFF, s)"
proof (induction i s rule: memory_allocate_loop.induct)
  case (1 i s)
  show ?case
  proof (cases "i < NUM_BLOCKS")
    case True
    with "1.prems" have used: "memory_map s ! i" by simp
    have "memory_allocate_loop (i + 1) s = (0xFFFF, s)"
      using "1.IH" [OF True] used "1.prems" by auto
    with True used show ?thesis by (simp add: memory_allocate_loop.simps [of i s])
  next
    case False
    then show ?thesis by (simp add: memory_allocate_loop.simps [of i s])
  qed
qed

lemma allocate_repeatedly:
  "k \<le> NUM_BLOCKS \<Longrightarrow>
   ((\<lambda>s. snd (memory_allocate s)) ^^ k) os_init
     = os_init\<lparr>memory_map := replicate k True @ replicate (NUM_BLOCKS - k) False\<rparr>"
proof (induction k)
  case 0
  then show ?case by (simp add: os_init_fields consts_simps)
next
  case (Suc k)
  let ?m = "replicate k True @ replicate (NUM_BLOCKS - k) False"
  let ?s = "os_init\<lparr>memory_map := ?m\<rparr>"
  from Suc.prems have k: "k < NUM_BLOCKS" by simp
  have "memory_allocate_loop 0 ?s
      = (word_of_nat (k * PROCESS_MEMORY_SIZE), ?s\<lparr>memory_map := (memory_map ?s)[k := True]\<rparr>)"
    using k by (intro alloc_loop_found) (simp_all add: nth_append)
  moreover have "replicate (NUM_BLOCKS - k) False = False # replicate (NUM_BLOCKS - Suc k) False"
    using k by (cases "NUM_BLOCKS - k") (auto simp: Suc_diff_Suc)
  then have "?m[k := True] = replicate (Suc k) True @ replicate (NUM_BLOCKS - Suc k) False"
    by (simp add: list_update_append replicate_append_same)
  ultimately show ?case using Suc.IH k by (simp add: memory_allocate_def)
qed

lemma all_used_eq: "all_used = os_init\<lparr>memory_map := replicate NUM_BLOCKS True\<rparr>"
  using allocate_repeatedly [of NUM_BLOCKS] by (simp add: all_used_def)

lemma least_index:
  assumes "\<exists>i<(n::nat). P i"
  shows "\<exists>i<n. P i \<and> (\<forall>j<i. \<not> P j)"
proof -
  from assms have "\<exists>i. i < n \<and> P i" by blast
  then obtain k where k: "k < n \<and> P k" and m: "\<forall>j<k. \<not> (j < n \<and> P j)"
    using exists_least_iff [of "\<lambda>i. i < n \<and> P i"] by blast
  have "\<forall>j<k. \<not> P j"
  proof (intro allI impI)
    fix j assume "j < k"
    with k m show "\<not> P j" by (meson less_trans)
  qed
  with k show ?thesis by blast
qed

text \<open>
  Claim C6. \<open>memory_allocate\<close> returns the byte offset \<open>i * PROCESS_MEMORY_SIZE\<close> of the
  lowest-index free block \<open>i\<close> and marks exactly that block used (the bitmap changes at
  index \<open>i\<close> only); whenever some block is free the result is not the failure value
  \<open>0xFFFF\<close>; when every block is used it returns \<open>0xFFFF\<close> and leaves the state as it was.
\<close>

theorem memory_allocate_lowest_free:
  "(i < NUM_BLOCKS \<and> \<not> memory_map s ! i \<and> (\<forall>j<i. memory_map s ! j) \<longrightarrow>
      memory_allocate s = (word_of_nat (i * PROCESS_MEMORY_SIZE), s\<lparr>memory_map := (memory_map s)[i := True]\<rparr>)
      \<and> unat (fst (memory_allocate s)) = i * PROCESS_MEMORY_SIZE)
   \<and> ((\<exists>i<NUM_BLOCKS. \<not> memory_map s ! i) \<longrightarrow> fst (memory_allocate s) \<noteq> 0xFFFF)
   \<and> ((\<forall>j<NUM_BLOCKS. memory_map s ! j) \<longrightarrow> memory_allocate s = (0xFFFF, s))"
proof (intro conjI impI)
  assume h: "i < NUM_BLOCKS \<and> \<not> memory_map s ! i \<and> (\<forall>j<i. memory_map s ! j)"
  then show eq: "memory_allocate s = (word_of_nat (i * PROCESS_MEMORY_SIZE), s\<lparr>memory_map := (memory_map s)[i := True]\<rparr>)"
    unfolding memory_allocate_def by (intro alloc_loop_found) auto
  from h show "unat (fst (memory_allocate s)) = i * PROCESS_MEMORY_SIZE"
    using block_offset_unat [of i] by (simp add: eq consts_simps)
next
  assume "\<exists>i<NUM_BLOCKS. \<not> memory_map s ! i"
  then obtain k where k: "k < NUM_BLOCKS" "\<not> memory_map s ! k" "\<forall>j<k. memory_map s ! j"
    using least_index [of NUM_BLOCKS "\<lambda>i. \<not> memory_map s ! i"] by blast
  then have "memory_allocate s = (word_of_nat (k * PROCESS_MEMORY_SIZE), s\<lparr>memory_map := (memory_map s)[k := True]\<rparr>)"
    unfolding memory_allocate_def by (intro alloc_loop_found) auto
  with k(1) show "fst (memory_allocate s) \<noteq> 0xFFFF"
    using block_offset_not_sentinel [of k] by (simp add: consts_simps)
next
  assume "\<forall>j<NUM_BLOCKS. memory_map s ! j"
  then show "memory_allocate s = (0xFFFF, s)"
    unfolding memory_allocate_def by (intro alloc_loop_full) auto
qed

text \<open>
  Example: in the initialized system block 0 is the lowest free block, and with every
  block used the call fails.
\<close>

theorem memory_allocate_lowest_free_witness:
  "memory_allocate os_init = (0, os_init\<lparr>memory_map := (memory_map os_init)[0 := True]\<rparr>)
   \<and> fst (memory_allocate os_init) \<noteq> 0xFFFF
   \<and> memory_allocate all_used = (0xFFFF, all_used)"
  using memory_allocate_lowest_free [of 0 os_init] memory_allocate_lowest_free [of 0 all_used]
  by (simp add: os_init_fields consts_simps all_used_eq)

lemma block_in_range: "unat (off :: 16 word) div PROCESS_MEMORY_SIZE < NUM_BLOCKS"
proof -
  have "unat off < 2 ^ 16" using unsigned_less [of off] by simp
  then show ?thesis by (simp add: consts_simps)
qed

lemma memory_free_eq:
  "memory_free off s = s\<lparr>memory_map := (memory_map s)[unat off div PROCESS_MEMORY_SIZE := False]\<rparr>"
  using block_in_range [of off] by (simp add: memory_free_def Let_def)

lemma block0_used_eq: "block0_used = os_init\<lparr>memory_map := True # replicate 15 False\<rparr>"
proof -
  have "memory_allocate_loop 0 os_init
          = (word_of_nat (0 * PROCESS_MEMORY_SIZE), os_init\<lparr>memory_map := (memory_map os_init)[0 := True]\<rparr>)"
    by (rule alloc_loop_found) (simp_all add: os_init_fields consts_simps)
  moreover have "replicate 16 False = False # replicate 15 False"
    by (simp add: numeral_eq_Suc)
  ultimately show ?thesis
    by (simp add: block0_used_def memory_allocate_def os_init_fields)
qed

text \<open>
  Claim C3, as stated, fails: offset 1 is not a multiple of the block size, so it is not
  a block-aligned boundary, yet \<open>memory_free 1\<close> clears the flag of block 0 when that
  block is used.
\<close>

theorem memory_free_unaligned_counterexample:
  "unat (1 :: 16 word) mod PROCESS_MEMORY_SIZE \<noteq> 0
   \<and> memory_map block0_used ! 0
   \<and> \<not> memory_map (memory_free 1 block0_used) ! 0
   \<and> memory_free 1 block0_used \<noteq> block0_used"
proof -
  have a: "memory_map block0_used ! 0" by (simp add: block0_used_eq)
  have b: "\<not> memory_map (memory_free 1 block0_used) ! 0"
    by (simp add: memory_free_eq block0_used_eq consts_simps)
  from a b have "memory_free 1 block0_used \<noteq> block0_used" by auto
  with a b show ?thesis by (simp add: consts_simps)
qed

text \<open>
  Claim C3, amended. \<open>memory_free\<close> divides the offset by the block size, and the block
  index it finds is in range for every 16-bit offset. It clears that block's flag and
  changes nothing else, so the call leaves the state unchanged exactly when the block
  that contains the offset is marked free; an offset anywhere inside a used block,
  aligned or not, frees that block.
\<close>

theorem memory_free_noop_iff:
  assumes "length (memory_map s) = NUM_BLOCKS"
  shows "unat off div PROCESS_MEMORY_SIZE < NUM_BLOCKS
    \<and> memory_free off s = s\<lparr>memory_map := (memory_map s)[unat off div PROCESS_MEMORY_SIZE := False]\<rparr>
    \<and> (memory_free off s = s \<longleftrightarrow> \<not> memory_map s ! (unat off div PROCESS_MEMORY_SIZE))"
proof -
  let ?b = "unat off div PROCESS_MEMORY_SIZE"
  have r: "?b < NUM_BLOCKS" by (rule block_in_range)
  have "memory_free off s = s" if "\<not> memory_map s ! ?b"
  proof -
    from that have "(memory_map s)[?b := False] = (memory_map s)[?b := memory_map s ! ?b]" by simp
    then have "(memory_map s)[?b := False] = memory_map s" by (simp only: list_update_id)
    then show ?thesis by (simp add: memory_free_eq)
  qed
  moreover have "\<not> memory_map s ! ?b" if "memory_free off s = s"
  proof -
    from that have "memory_map (memory_free off s) ! ?b = memory_map s ! ?b" by simp
    then show ?thesis using r assms by (simp add: memory_free_eq)
  qed
  ultimately show ?thesis using r memory_free_eq by blast
qed

text \<open>
  Example: with block 0 used and block 1 free, freeing offset 4096 changes nothing and
  freeing offset 0 does.
\<close>

theorem memory_free_noop_iff_witness:
  "length (memory_map block0_used) = NUM_BLOCKS
   \<and> memory_free 4096 block0_used = block0_used
   \<and> memory_free 0 block0_used \<noteq> block0_used"
proof -
  have len: "length (memory_map block0_used) = NUM_BLOCKS"
    by (simp add: block0_used_eq consts_simps)
  have free1: "\<not> memory_map block0_used ! (unat (4096 :: 16 word) div PROCESS_MEMORY_SIZE)"
    by (simp add: block0_used_eq consts_simps)
  have used0: "memory_map block0_used ! (unat (0 :: 16 word) div PROCESS_MEMORY_SIZE)"
    by (simp add: block0_used_eq consts_simps)
  from memory_free_noop_iff [OF len, of 4096] free1
  have "memory_free 4096 block0_used = block0_used" by blast
  moreover from memory_free_noop_iff [OF len, of 0] used0
  have "memory_free 0 block0_used \<noteq> block0_used" by blast
  ultimately show ?thesis using len by blast
qed

section \<open>Process creation and termination\<close>

lemma find_slot_found:
  "p \<le> k \<Longrightarrow> k < MAX_PROCESSES \<Longrightarrow> state (processes s ! k) = PROCESS_TERMINATED
   \<Longrightarrow> (\<forall>j. p \<le> j \<and> j < k \<longrightarrow> state (processes s ! j) \<noteq> PROCESS_TERMINATED)
   \<Longrightarrow> find_slot_loop p s = k"
proof (induction p s rule: find_slot_loop.induct)
  case (1 p s)
  show ?case
  proof (cases "p = k")
    case True
    with "1.prems" show ?thesis by (simp add: find_slot_loop.simps [of k s])
  next
    case False
    with "1.prems" have lt: "p < k" and l: "state (processes s ! p) \<noteq> PROCESS_TERMINATED" by auto
    from lt "1.prems" have c: "p < MAX_PROCESSES \<and> state (processes s ! p) \<noteq> PROCESS_TERMINATED"
      using l by simp
    have "find_slot_loop (p + 1) s = k"
      using "1.IH" [OF c] lt "1.prems" by auto
    with c show ?thesis by (simp add: find_slot_loop.simps [of p s])
  qed
qed

lemma find_slot_none:
  "p \<le> MAX_PROCESSES \<Longrightarrow> (\<forall>j. p \<le> j \<and> j < MAX_PROCESSES \<longrightarrow> state (processes s ! j) \<noteq> PROCESS_TERMINATED)
   \<Longrightarrow> find_slot_loop p s = MAX_PROCESSES"
proof (induction p s rule: find_slot_loop.induct)
  case (1 p s)
  show ?case
  proof (cases "p < MAX_PROCESSES")
    case True
    with "1.prems" have c: "p < MAX_PROCESSES \<and> state (processes s ! p) \<noteq> PROCESS_TERMINATED" by simp
    have "find_slot_loop (p + 1) s = MAX_PROCESSES"
      using "1.IH" [OF c] True "1.prems" by auto
    with c show ?thesis by (simp add: find_slot_loop.simps [of p s])
  next
    case False
    with "1.prems" have "p = MAX_PROCESSES" by simp
    then show ?thesis using find_slot_loop.simps [of p s] by simp
  qed
qed

lemma find_slot_cases:
  "(\<exists>k<MAX_PROCESSES. find_slot_loop 0 s = k \<and> state (processes s ! k) = PROCESS_TERMINATED
        \<and> (\<forall>j<k. state (processes s ! j) \<noteq> PROCESS_TERMINATED))
   \<or> (find_slot_loop 0 s = MAX_PROCESSES \<and> (\<forall>j<MAX_PROCESSES. state (processes s ! j) \<noteq> PROCESS_TERMINATED))"
proof (cases "\<exists>i<MAX_PROCESSES. state (processes s ! i) = PROCESS_TERMINATED")
  case True
  then obtain k where k: "k < MAX_PROCESSES" "state (processes s ! k) = PROCESS_TERMINATED"
      "\<forall>j<k. state (processes s ! j) \<noteq> PROCESS_TERMINATED"
    using least_index [of MAX_PROCESSES "\<lambda>i. state (processes s ! i) = PROCESS_TERMINATED"] by blast
  then have "find_slot_loop 0 s = k" by (intro find_slot_found) auto
  with k show ?thesis by blast
next
  case False
  then have "find_slot_loop 0 s = MAX_PROCESSES" by (intro find_slot_none) auto
  with False show ?thesis by blast
qed

lemma alloc_loop_sentinel:
  "fst (memory_allocate_loop i s) = 0xFFFF \<Longrightarrow> snd (memory_allocate_loop i s) = s"
proof (induction i s rule: memory_allocate_loop.induct)
  case (1 i s)
  show ?case
  proof (cases "i < NUM_BLOCKS")
    case False
    then show ?thesis by (simp add: memory_allocate_loop.simps [of i s])
  next
    case True
    show ?thesis
    proof (cases "memory_map s ! i")
      case used: True
      with True have e: "memory_allocate_loop i s = memory_allocate_loop (i + 1) s"
        by (simp add: memory_allocate_loop.simps [of i s])
      with "1.IH" [OF True] used "1.prems" show ?thesis by simp
    next
      case free: False
      with True have "fst (memory_allocate_loop i s) = word_of_nat (i * PROCESS_MEMORY_SIZE)"
        by (simp add: memory_allocate_loop.simps [of i s])
      with "1.prems" True block_offset_not_sentinel [of i] show ?thesis
        by (simp add: consts_simps)
    qed
  qed
qed

lemma memory_allocate_sentinel:
  "memory_allocate s = (0xFFFF, s1) \<Longrightarrow> s1 = s"
  using alloc_loop_sentinel [of 0 s] by (simp add: memory_allocate_def)

lemma process_create_fail_unchanged:
  "process_create nm s = (Inl e, s') \<Longrightarrow> s' = s"
  by (auto simp: process_create_def Let_def split: if_splits prod.splits dest: memory_allocate_sentinel)

lemma count_inv_free_slot:
  assumes "count_inv s" "i < MAX_PROCESSES" "state (processes s ! i) = PROCESS_TERMINATED"
  shows "unat (process_count s) < MAX_PROCESSES"
proof -
  from assms have "processes s ! i \<in> set (processes s)" "\<not> live (processes s ! i)"
    by (simp_all add: count_inv_def live_def)
  then have "length (filter live (processes s)) < length (processes s)"
    by (rule length_filter_less)
  with assms(1) show ?thesis by (simp add: count_inv_def)
qed

text \<open>
  Claim C4. Whenever \<open>process_create\<close> fails, the state it leaves is the state it was
  called in. With no terminated slot it fails with \<open>TableFull\<close>. In a state whose
  process count is the number of live slots, if a terminated slot exists and every
  memory block is marked used, it fails with \<open>OutOfMemory\<close> and the state is unchanged.
\<close>

theorem process_create_atomic:
  "(isl (fst (process_create nm s)) \<longrightarrow> snd (process_create nm s) = s)
   \<and> ((\<forall>i<MAX_PROCESSES. state (processes s ! i) \<noteq> PROCESS_TERMINATED) \<longrightarrow>
        process_create nm s = (Inl TableFull, s))
   \<and> (count_inv s \<and> (\<exists>i<MAX_PROCESSES. state (processes s ! i) = PROCESS_TERMINATED)
        \<and> (\<forall>j<NUM_BLOCKS. memory_map s ! j) \<longrightarrow>
        process_create nm s = (Inl OutOfMemory, s))"
proof (intro conjI impI)
  assume "isl (fst (process_create nm s))"
  then obtain e where "fst (process_create nm s) = Inl e" by (auto simp: isl_def)
  then have "process_create nm s = (Inl e, snd (process_create nm s))"
    by (metis prod.collapse)
  then show "snd (process_create nm s) = s" by (rule process_create_fail_unchanged)
next
  assume "\<forall>i<MAX_PROCESSES. state (processes s ! i) \<noteq> PROCESS_TERMINATED"
  then have "find_slot_loop 0 s = MAX_PROCESSES" by (intro find_slot_none) auto
  then show "process_create nm s = (Inl TableFull, s)"
    by (simp add: process_create_def)
next
  assume h: "count_inv s \<and> (\<exists>i<MAX_PROCESSES. state (processes s ! i) = PROCESS_TERMINATED)
        \<and> (\<forall>j<NUM_BLOCKS. memory_map s ! j)"
  then have c: "unat (process_count s) < MAX_PROCESSES" using count_inv_free_slot by blast
  from h have "find_slot_loop 0 s < MAX_PROCESSES" using find_slot_cases [of s] by auto
  moreover from h have "memory_allocate s = (0xFFFF, s)"
    unfolding memory_allocate_def by (intro alloc_loop_full) auto
  ultimately show "process_create nm s = (Inl OutOfMemory, s)"
    using c by (simp add: process_create_def)
qed

lemma filter_replicate_False: "\<not> P x \<Longrightarrow> filter P (replicate n x) = []"
  by (induction n) simp_all

lemma count_inv_all_used: "count_inv all_used"
  by (simp add: count_inv_def all_used_eq os_init_fields consts_simps filter_replicate_False live_def terminated_slot_def)

text \<open>
  Example: with every memory block used and all slots free, \<open>process_create\<close> fails
  with \<open>OutOfMemory\<close> and changes nothing.
\<close>

theorem process_create_atomic_witness:
  "count_inv all_used \<and> state (processes all_used ! 0) = PROCESS_TERMINATED
   \<and> memory_map all_used = replicate NUM_BLOCKS True
   \<and> process_create ''shell'' all_used = (Inl OutOfMemory, all_used)
   \<and> isl (fst (process_create ''shell'' all_used))
   \<and> snd (process_create ''shell'' all_used) = all_used"
proof -
  have a: "state (processes all_used ! 0) = PROCESS_TERMINATED"
    by (simp add: all_used_eq os_init_fields terminated_slot_def)
  have b: "\<forall>j<NUM_BLOCKS. memory_map all_used ! j"
    by (simp add: all_used_eq)
  have c: "\<exists>i<MAX_PROCESSES. state (processes all_used ! i) = PROCESS_TERMINATED"
  proof (intro exI conjI)
    show "0 < MAX_PROCESSES" by (simp add: consts_simps)
    show "state (processes all_used ! 0) = PROCESS_TERMINATED" by (rule a)
  qed
  from process_create_atomic [of "''shell''" all_used] count_inv_all_used b c
  have "process_create ''shell'' all_used = (Inl OutOfMemory, all_used)" by blast
  with a count_inv_all_used show ?thesis by (simp add: all_used_eq)
qed

lemma process_create_success:
  assumes "unat (process_count s) < MAX_PROCESSES"
    and "k < MAX_PROCESSES" "state (processes s ! k) = PROCESS_TERMINATED"
        "\<forall>j<k. state (processes s ! j) \<noteq> PROCESS_TERMINATED"
    and "b < NUM_BLOCKS" "\<not> memory_map s ! b" "\<forall>j<b. memory_map s ! j"
  shows "process_create nm s = (Inr (word_of_nat k), install_process k b nm s)"
proof -
  have f: "find_slot_loop 0 s = k" using assms(2-4) by (intro find_slot_found) auto
  have a: "memory_allocate s = (word_of_nat (b * PROCESS_MEMORY_SIZE), s\<lparr>memory_map := (memory_map s)[b := True]\<rparr>)"
    unfolding memory_allocate_def using assms(5-7) by (intro alloc_loop_found) auto
  have n: "(word_of_nat (b * PROCESS_MEMORY_SIZE) :: 16 word) \<noteq> 0xFFFF"
    using block_offset_not_sentinel [of b] assms(5) by (simp add: consts_simps)
  show ?thesis
    using assms(1,2) n unfolding process_create_def f a install_process_def
    by (simp add: Let_def)
qed

lemma process_create_cases:
  "(isl (fst (process_create nm s)) \<and> snd (process_create nm s) = s)
   \<or> (\<exists>k b. k < MAX_PROCESSES \<and> b < NUM_BLOCKS \<and> unat (process_count s) < MAX_PROCESSES
        \<and> state (processes s ! k) = PROCESS_TERMINATED
        \<and> (\<forall>j<k. state (processes s ! j) \<noteq> PROCESS_TERMINATED)
        \<and> \<not> memory_map s ! b \<and> (\<forall>j<b. memory_map s ! j)
        \<and> process_create nm s = (Inr (word_of_nat k), install_process k b nm s))"
proof (cases "unat (process_count s) < MAX_PROCESSES
    \<and> (\<exists>k<MAX_PROCESSES. state (processes s ! k) = PROCESS_TERMINATED)
    \<and> (\<exists>b<NUM_BLOCKS. \<not> memory_map s ! b)")
  case True
  then obtain k where k: "k < MAX_PROCESSES" "state (processes s ! k) = PROCESS_TERMINATED"
      "\<forall>j<k. state (processes s ! j) \<noteq> PROCESS_TERMINATED"
    using least_index [of MAX_PROCESSES "\<lambda>i. state (processes s ! i) = PROCESS_TERMINATED"] by blast
  from True obtain b where b: "b < NUM_BLOCKS" "\<not> memory_map s ! b" "\<forall>j<b. memory_map s ! j"
    using least_index [of NUM_BLOCKS "\<lambda>i. \<not> memory_map s ! i"] by auto
  from True k b have "process_create nm s = (Inr (word_of_nat k), install_process k b nm s)"
    by (intro process_create_success) auto
  with True k b show ?thesis by blast
next
  case False
  then consider "\<not> unat (process_count s) < MAX_PROCESSES"
    | "\<forall>k<MAX_PROCESSES. state (processes s ! k) \<noteq> PROCESS_TERMINATED"
    | "unat (process_count s) < MAX_PROCESSES" "\<exists>k<MAX_PROCESSES. state (processes s ! k) = PROCESS_TERMINATED"
      "\<forall>b<NUM_BLOCKS. memory_map s ! b"
    by blast
  then have "\<exists>e. process_create nm s = (Inl e, s)"
  proof cases
    case 1
    then show ?thesis by (simp add: process_create_def)
  next
    case 2
    then have "find_slot_loop 0 s = MAX_PROCESSES" by (intro find_slot_none) auto
    then show ?thesis by (simp add: process_create_def)
  next
    case 3
    then have "find_slot_loop 0 s < MAX_PROCESSES" using find_slot_cases [of s] by auto
    moreover from 3 have "memory_allocate s = (0xFFFF, s)"
      unfolding memory_allocate_def by (intro alloc_loop_full) auto
    ultimately show ?thesis using 3(1) by (simp add: process_create_def)
  qed
  then show ?thesis by auto
qed

text \<open>
  The byte the C function returns is \<open>0xFF\<close> exactly when the call fails: a pid it
  returns is below \<open>MAX_PROCESSES\<close>.
\<close>

lemma create_code_failure_iff:
  "create_code (fst (process_create nm s)) = 0xFF \<longleftrightarrow> isl (fst (process_create nm s))"
proof (cases "isl (fst (process_create nm s))")
  case True
  then show ?thesis by (auto simp: create_code_def isl_def)
next
  case False
  with process_create_cases [of nm s] obtain k where k: "k < MAX_PROCESSES"
    and r: "fst (process_create nm s) = Inr (word_of_nat k)" by auto
  have u: "unat (word_of_nat k :: 8 word) = k" using k by (intro unat_of_nat8) (simp add: consts_simps)
  have "(word_of_nat k :: 8 word) \<noteq> 0xFF"
  proof
    assume "(word_of_nat k :: 8 word) = 0xFF"
    then have "unat (word_of_nat k :: 8 word) = unat (0xFF :: 8 word)" by (rule arg_cong)
    with u have "k = 255" by simp
    with k show False by (simp add: consts_simps)
  qed
  with False r show ?thesis by (simp add: create_code_def)
qed

lemma shell_created_eq: "process_create ''shell'' os_init = (Inr 0, install_process 0 0 ''shell'' os_init)"
  using process_create_success [of os_init 0 0 "''shell''"]
  by (simp add: os_init_fields consts_simps terminated_slot_def)

lemma shell_created_fields:
  "length (processes shell_created) = 16"
  "state (processes shell_created ! 0) = PROCESS_READY"
  "memory_start (processes shell_created ! 0) = 0"
  "memory_map shell_created = (replicate 16 False)[0 := True]"
  "process_count shell_created = 1"
  "current_process shell_created = 0"
  "\<And>i. 0 < i \<Longrightarrow> i < 16 \<Longrightarrow> processes shell_created ! i = terminated_slot"
  by (simp_all add: shell_created_def shell_created_eq install_process_def os_init_fields)

text \<open>
  Claim C5. \<open>process_terminate p\<close> leaves the state unchanged when \<open>p\<close> is out of range
  or slot \<open>p\<close> is terminated. Otherwise it clears the bitmap flag of the block holding
  the slot's \<open>memory_start\<close>, sets the slot's state to terminated and decrements the
  process count by one, changing nothing else. Terminating twice equals terminating once.
\<close>

theorem process_terminate_spec:
  "(unat p \<ge> MAX_PROCESSES \<or> state (processes s ! unat p) = PROCESS_TERMINATED \<longrightarrow>
      process_terminate p s = s)
   \<and> (unat p < MAX_PROCESSES \<and> state (processes s ! unat p) \<noteq> PROCESS_TERMINATED \<longrightarrow>
      process_terminate p s =
        s\<lparr>memory_map := (memory_map s)[unat (memory_start (processes s ! unat p)) div PROCESS_MEMORY_SIZE := False],
          processes := (processes s)[unat p := (processes s ! unat p)\<lparr>state := PROCESS_TERMINATED\<rparr>],
          process_count := process_count s - 1\<rparr>
      \<and> (length (processes s) = MAX_PROCESSES \<longrightarrow>
            state (processes (process_terminate p s) ! unat p) = PROCESS_TERMINATED)
      \<and> (process_count s \<noteq> 0 \<longrightarrow>
            unat (process_count (process_terminate p s)) + 1 = unat (process_count s)))
   \<and> (length (processes s) = MAX_PROCESSES \<longrightarrow>
        process_terminate p (process_terminate p s) = process_terminate p s)"
proof -
  let ?t = "s\<lparr>memory_map := (memory_map s)[unat (memory_start (processes s ! unat p)) div PROCESS_MEMORY_SIZE := False],
          processes := (processes s)[unat p := (processes s ! unat p)\<lparr>state := PROCESS_TERMINATED\<rparr>],
          process_count := process_count s - 1\<rparr>"
  have noop: "process_terminate p s = s"
    if "unat p \<ge> MAX_PROCESSES \<or> state (processes s ! unat p) = PROCESS_TERMINATED" for s
    using that by (auto simp: process_terminate_def)
  have eff: "process_terminate p s = ?t"
    if "unat p < MAX_PROCESSES \<and> state (processes s ! unat p) \<noteq> PROCESS_TERMINATED"
    using that by (simp add: process_terminate_def memory_free_eq Let_def)
  have st: "state (processes ?t ! unat p) = PROCESS_TERMINATED"
    if "unat p < MAX_PROCESSES" "length (processes s) = MAX_PROCESSES"
    using that by simp
  have cnt: "unat (process_count s - 1) + 1 = unat (process_count s)" if "process_count s \<noteq> 0"
    using that unat_gt_0 [of "process_count s"] by (simp add: unat_minus_one)
  have idem: "process_terminate p (process_terminate p s) = process_terminate p s"
    if len: "length (processes s) = MAX_PROCESSES"
  proof (cases "unat p < MAX_PROCESSES \<and> state (processes s ! unat p) \<noteq> PROCESS_TERMINATED")
    case True
    then have "process_terminate p s = ?t" by (rule eff)
    moreover have "state (processes ?t ! unat p) = PROCESS_TERMINATED"
      using True len by (intro st) auto
    ultimately have "state (processes (process_terminate p s) ! unat p) = PROCESS_TERMINATED"
      by simp
    then show ?thesis by (intro noop) simp
  next
    case False
    then have "process_terminate p s = s" by (intro noop) auto
    then show ?thesis by simp
  qed
  show ?thesis
  proof (intro conjI impI)
    assume "unat p \<ge> MAX_PROCESSES \<or> state (processes s ! unat p) = PROCESS_TERMINATED"
    then show "process_terminate p s = s" by (rule noop)
  next
    assume h: "unat p < MAX_PROCESSES \<and> state (processes s ! unat p) \<noteq> PROCESS_TERMINATED"
    then show "process_terminate p s = ?t" by (rule eff)
    { assume "length (processes s) = MAX_PROCESSES"
      with h have "state (processes ?t ! unat p) = PROCESS_TERMINATED" by (intro st) auto
      then show "state (processes (process_terminate p s) ! unat p) = PROCESS_TERMINATED"
        using eff [OF h] by simp }
    { assume "process_count s \<noteq> 0"
      then have "unat (process_count s - 1) + 1 = unat (process_count s)" by (rule cnt)
      then show "unat (process_count (process_terminate p s)) + 1 = unat (process_count s)"
        using eff [OF h] by simp }
  next
    assume "length (processes s) = MAX_PROCESSES"
    then show "process_terminate p (process_terminate p s) = process_terminate p s" by (rule idem)
  qed
qed

text \<open>
  Example: after \<open>process_create("shell")\<close>, terminating pid 16 changes nothing, and
  terminating pid 0 frees its block, terminates it and brings the count to 0, once or twice.
\<close>

theorem process_terminate_spec_witness:
  "process_terminate 16 shell_created = shell_created
   \<and> state (processes shell_created ! 0) = PROCESS_READY
   \<and> state (processes (process_terminate 0 shell_created) ! 0) = PROCESS_TERMINATED
   \<and> memory_map shell_created ! 0
   \<and> memory_map (process_terminate 0 shell_created) = replicate 16 False
   \<and> process_count shell_created = 1
   \<and> process_count (process_terminate 0 shell_created) = 0
   \<and> process_terminate 0 (process_terminate 0 shell_created) = process_terminate 0 shell_created"
proof -
  have len: "length (processes shell_created) = MAX_PROCESSES"
    by (simp add: shell_created_fields consts_simps)
  have oor: "unat (16 :: 8 word) \<ge> MAX_PROCESSES" by (simp add: consts_simps)
  have lv: "unat (0 :: 8 word) < MAX_PROCESSES
      \<and> state (processes shell_created ! unat (0 :: 8 word)) \<noteq> PROCESS_TERMINATED"
    by (simp add: shell_created_fields consts_simps)
  from process_terminate_spec [of 16 shell_created] oor
  have a: "process_terminate 16 shell_created = shell_created" by blast
  from process_terminate_spec [of 0 shell_created] lv
  have b: "process_terminate 0 shell_created =
        shell_created\<lparr>memory_map := (memory_map shell_created)[unat (memory_start (processes shell_created ! unat (0 :: 8 word))) div PROCESS_MEMORY_SIZE := False],
          processes := (processes shell_created)[unat (0 :: 8 word) := (processes shell_created ! unat (0 :: 8 word))\<lparr>state := PROCESS_TERMINATED\<rparr>],
          process_count := process_count shell_created - 1\<rparr>" by blast
  from process_terminate_spec [of 0 shell_created] len
  have c: "process_terminate 0 (process_terminate 0 shell_created) = process_terminate 0 shell_created"
    by blast
  have d: "(replicate 16 False)[0 := False] = replicate 16 False"
    by (simp add: list_eq_iff_nth_eq nth_list_update)
  show ?thesis
    unfolding a c by (simp add: b shell_created_fields d)
qed

section \<open>The scheduler and the invariants of the process table\<close>

lemma filter_update_count:
  "i < length xs \<Longrightarrow>
   length (filter P (xs[i := y])) + (if P (xs ! i) then 1 else 0) = length (filter P xs) + (if P y then 1 else 0)"
proof (induction xs arbitrary: i)
  case Nil then show ?case by simp
next
  case (Cons x xs)
  show ?case
  proof (cases i)
    case 0 then show ?thesis by simp
  next
    case (Suc j)
    with Cons.prems have "j < length xs" by simp
    from Cons.IH [OF this] Suc show ?thesis by simp
  qed
qed

lemma filter_update_same:
  "i < length xs \<Longrightarrow> P y = P (xs ! i) \<Longrightarrow> length (filter P (xs[i := y])) = length (filter P xs)"
  using filter_update_count [of i xs P y] by (simp split: if_splits)

lemma filter_update_same_any:
  "P y = P (xs ! i) \<Longrightarrow> length (filter P (xs[i := y])) = length (filter P xs)"
  by (cases "i < length xs") (simp_all add: filter_update_same list_update_beyond)

lemma schedule_loop_result:
  assumes "schedule_loop n s = Some s'" and "n < MAX_PROCESSES"
  shows "s' = s \<or> (\<exists>k<MAX_PROCESSES. k \<noteq> unat (current_process s)
       \<and> state (processes s ! k) = PROCESS_READY \<and> s' = switch_to k s)"
proof -
  define Q where "Q = (\<lambda>n s s'. n < MAX_PROCESSES \<longrightarrow>
      s' = s \<or> (\<exists>k<MAX_PROCESSES. k \<noteq> unat (current_process s)
       \<and> state (processes s ! k) = PROCESS_READY \<and> s' = switch_to k s))"
  have "Q n s s'"
  proof (rule schedule_loop.raw_induct [where P = Q, OF _ assms(1)])
    fix f n s s'
    assume IH: "\<And>m t y. f m t = Some y \<Longrightarrow> Q m t y"
      and body: "(if n \<noteq> unat (current_process s)
        then if state (processes s ! n) = PROCESS_READY
             then Some (switch_to n s)
             else f ((n + 1) mod MAX_PROCESSES) s
        else Some s) = Some s'"
    show "Q n s s'"
    proof (cases "n \<noteq> unat (current_process s)")
      case False
      with body show ?thesis by (simp add: Q_def)
    next
      case True
      show ?thesis
      proof (cases "state (processes s ! n) = PROCESS_READY")
        case rdy: True
        with True body have "s' = switch_to n s" by simp
        with True rdy show ?thesis unfolding Q_def by blast
      next
        case False
        with True body have "f ((n + 1) mod MAX_PROCESSES) s = Some s'" by simp
        then have "Q ((n + 1) mod MAX_PROCESSES) s s'" by (rule IH)
        moreover have "(n + 1) mod MAX_PROCESSES < MAX_PROCESSES" by (simp add: consts_simps)
        ultimately show ?thesis by (simp add: Q_def)
      qed
    qed
  qed
  with assms(2) show ?thesis by (simp add: Q_def)
qed

lemma next_slot_cases:
  "n < MAX_PROCESSES \<Longrightarrow>
   (n + 1 < MAX_PROCESSES \<and> (n + 1) mod MAX_PROCESSES = n + 1)
   \<or> (n + 1 = MAX_PROCESSES \<and> (n + 1) mod MAX_PROCESSES = 0)"
proof (cases "n = 15")
  case True then show ?thesis by (simp add: consts_simps)
next
  case False
  assume "n < MAX_PROCESSES"
  with False have "n + 1 < MAX_PROCESSES" by (simp add: consts_simps)
  then show ?thesis by simp
qed

lemma schedule_loop_returns:
  "unat (current_process s) = c \<Longrightarrow> c < MAX_PROCESSES \<Longrightarrow> n < MAX_PROCESSES
   \<Longrightarrow> \<exists>s'. schedule_loop n s = Some s'"
proof (induction "if n \<le> c then c - n else c + MAX_PROCESSES - n" arbitrary: n rule: less_induct)
  case less
  show ?case
  proof (cases "n \<noteq> c \<and> state (processes s ! n) \<noteq> PROCESS_READY")
    case False
    with less.prems(1) show ?thesis by (auto simp: schedule_loop.simps [of n s])
  next
    case True
    let ?n' = "(n + 1) mod MAX_PROCESSES"
    have lt: "?n' < MAX_PROCESSES" by (simp add: consts_simps)
    have "(if ?n' \<le> c then c - ?n' else c + MAX_PROCESSES - ?n')
            < (if n \<le> c then c - n else c + MAX_PROCESSES - n)"
      using next_slot_cases [OF less.prems(3)] True less.prems(2,3) by auto
    then have "\<exists>s'. schedule_loop ?n' s = Some s'"
      using less.prems(1,2) lt by (rule less.hyps)
    with True less.prems(1) show ?thesis by (simp add: schedule_loop.simps [of n s])
  qed
qed

lemma process_schedule_returns:
  "unat (current_process s) < MAX_PROCESSES \<Longrightarrow> \<exists>s'. process_schedule s = Some s'"
proof (cases "process_count s = 0")
  case True then show ?thesis by (simp add: process_schedule_def)
next
  case False
  assume c: "unat (current_process s) < MAX_PROCESSES"
  have "(unat (current_process s) + 1) mod MAX_PROCESSES < MAX_PROCESSES" by (simp add: consts_simps)
  with c have "\<exists>s'. schedule_loop ((unat (current_process s) + 1) mod MAX_PROCESSES) s = Some s'"
    by (intro schedule_loop_returns [OF refl]) auto
  with False show ?thesis by (simp add: process_schedule_def)
qed

lemma process_schedule_result:
  "process_schedule s = Some s' \<Longrightarrow>
   s' = s \<or> (\<exists>k<MAX_PROCESSES. k \<noteq> unat (current_process s)
       \<and> state (processes s ! k) = PROCESS_READY \<and> s' = switch_to k s)"
proof (cases "process_count s = 0")
  case True
  assume "process_schedule s = Some s'"
  with True show ?thesis by (simp add: process_schedule_def)
next
  case False
  assume "process_schedule s = Some s'"
  with False have "schedule_loop ((unat (current_process s) + 1) mod MAX_PROCESSES) s = Some s'"
    by (simp add: process_schedule_def)
  moreover have "(unat (current_process s) + 1) mod MAX_PROCESSES < MAX_PROCESSES" by (simp add: consts_simps)
  ultimately show ?thesis by (rule schedule_loop_result)
qed

lemma switch_to_count_inv:
  assumes "count_inv s" "k \<noteq> unat (current_process s)" "state (processes s ! k) = PROCESS_READY"
  shows "count_inv (switch_to k s)"
proof -
  let ?c = "unat (current_process s)"
  let ?ps1 = "if state (processes s ! ?c) = PROCESS_RUNNING
      then (processes s)[?c := (processes s ! ?c)\<lparr>state := PROCESS_READY\<rparr>] else processes s"
  have p: "processes (switch_to k s) = ?ps1[k := (?ps1 ! k)\<lparr>state := PROCESS_RUNNING\<rparr>]"
    by (simp add: switch_to_def Let_def)
  have c: "process_count (switch_to k s) = process_count s"
    by (simp add: switch_to_def Let_def)
  have l1: "length (filter live ?ps1) = length (filter live (processes s))"
    by (simp add: filter_update_same_any live_def)
  have k1: "?ps1 ! k = processes s ! k" using assms(2) by simp
  have "length (filter live (?ps1[k := (?ps1 ! k)\<lparr>state := PROCESS_RUNNING\<rparr>])) = length (filter live ?ps1)"
    by (rule filter_update_same_any) (simp add: k1 assms(3) live_def)
  with l1 assms(1) show ?thesis unfolding count_inv_def p c by simp
qed

lemma switch_to_running_inv:
  assumes "running_inv s" "k < MAX_PROCESSES" "k \<noteq> unat (current_process s)"
  shows "running_inv (switch_to k s)"
proof -
  let ?c = "unat (current_process s)"
  let ?ps1 = "if state (processes s ! ?c) = PROCESS_RUNNING
      then (processes s)[?c := (processes s ! ?c)\<lparr>state := PROCESS_READY\<rparr>] else processes s"
  have p: "processes (switch_to k s) = ?ps1[k := (?ps1 ! k)\<lparr>state := PROCESS_RUNNING\<rparr>]"
    by (simp add: switch_to_def Let_def)
  have c: "unat (current_process (switch_to k s)) = k"
    using assms(2) by (simp add: switch_to_def Let_def unat_of_nat8 consts_simps)
  from assms(1) have len: "length (processes s) = MAX_PROCESSES"
    and cr: "?c < MAX_PROCESSES"
    and only: "\<And>i. i < MAX_PROCESSES \<Longrightarrow> state (processes s ! i) = PROCESS_RUNNING \<Longrightarrow> i = ?c"
    by (simp_all add: running_inv_def)
  have none: "state (?ps1 ! i) \<noteq> PROCESS_RUNNING" if "i < MAX_PROCESSES" for i
  proof (cases "i = ?c")
    case True
    with len cr show ?thesis by simp
  next
    case False
    with only [OF that] show ?thesis by auto
  qed
  have "i = k" if "i < MAX_PROCESSES" "state (processes (switch_to k s) ! i) = PROCESS_RUNNING" for i
  proof (rule ccontr)
    assume "i \<noteq> k"
    with that(2) have "state (?ps1 ! i) = PROCESS_RUNNING" unfolding p by simp
    with none [OF that(1)] show False by simp
  qed
  moreover have "length (processes (switch_to k s)) = MAX_PROCESSES" unfolding p using len by simp
  ultimately show ?thesis using assms(2) unfolding running_inv_def c by blast
qed

lemma install_count_inv:
  assumes "count_inv s" "k < MAX_PROCESSES" "state (processes s ! k) = PROCESS_TERMINATED"
  shows "count_inv (install_process k b nm s)"
proof -
  let ?p = "(processes s ! k)
          \<lparr>pid := word_of_nat k, state := PROCESS_READY,
           memory_start := word_of_nat (b * PROCESS_MEMORY_SIZE),
           memory_size := word_of_nat PROCESS_MEMORY_SIZE, program_counter := 0,
           name := copy_name nm (name (processes s ! k))\<rparr>"
  from assms have len: "length (processes s) = MAX_PROCESSES" by (simp add: count_inv_def)
  have lt: "unat (process_count s) < MAX_PROCESSES" using assms by (rule count_inv_free_slot)
  have "length (filter live ((processes s)[k := ?p])) + (if live (processes s ! k) then 1 else 0)
      = length (filter live (processes s)) + (if live ?p then 1 else 0)"
    using assms(2) len by (intro filter_update_count) simp
  then have "length (filter live ((processes s)[k := ?p])) = length (filter live (processes s)) + 1"
    using assms(3) by (simp add: live_def)
  moreover have "unat (process_count s + 1) = unat (process_count s) + 1"
    using lt by (intro unat_succ8) (simp add: consts_simps)
  ultimately show ?thesis using assms(1) len
    by (simp add: count_inv_def install_process_def)
qed

lemma install_running_inv:
  assumes "running_inv s" "k < MAX_PROCESSES"
  shows "running_inv (install_process k b nm s)"
  using assms by (auto simp: running_inv_def install_process_def nth_list_update)

lemma terminate_count_inv:
  assumes "count_inv s"
  shows "count_inv (process_terminate p s)"
proof (cases "unat p \<ge> MAX_PROCESSES \<or> state (processes s ! unat p) = PROCESS_TERMINATED")
  case True
  then have "process_terminate p s = s" by (auto simp: process_terminate_def)
  with assms show ?thesis by simp
next
  case False
  let ?q = "(processes s ! unat p)\<lparr>state := PROCESS_TERMINATED\<rparr>"
  from assms have len: "length (processes s) = MAX_PROCESSES" by (simp add: count_inv_def)
  from False have e: "process_terminate p s =
        s\<lparr>memory_map := (memory_map s)[unat (memory_start (processes s ! unat p)) div PROCESS_MEMORY_SIZE := False],
          processes := (processes s)[unat p := ?q], process_count := process_count s - 1\<rparr>"
    by (simp add: process_terminate_def memory_free_eq Let_def)
  have "length (filter live ((processes s)[unat p := ?q])) + (if live (processes s ! unat p) then 1 else 0)
      = length (filter live (processes s)) + (if live ?q then 1 else 0)"
    using False len by (intro filter_update_count) simp
  then have f: "length (filter live ((processes s)[unat p := ?q])) + 1 = length (filter live (processes s))"
    using False by (simp add: live_def)
  then have "0 < length (filter live (processes s))" by linarith
  then have "0 < unat (process_count s)" using assms by (simp only: count_inv_def)
  then have "unat (process_count s - 1) = unat (process_count s) - 1" by (rule unat_pred8)
  with f assms len show ?thesis unfolding e by (simp add: count_inv_def)
qed

lemma terminate_running_inv:
  assumes "running_inv s"
  shows "running_inv (process_terminate p s)"
  using assms
  by (auto simp: running_inv_def process_terminate_def memory_free_eq Let_def nth_list_update)

lemma proc_reachable_inv: "proc_reachable s \<Longrightarrow> count_inv s \<and> running_inv s"
proof (induction rule: proc_reachable.induct)
  case init
  show ?case
    by (simp add: count_inv_def running_inv_def os_init_fields consts_simps
        filter_replicate_False live_def terminated_slot_def)
next
  case (create s nm)
  from process_create_cases [of nm s] show ?case
  proof
    assume "isl (fst (process_create nm s)) \<and> snd (process_create nm s) = s"
    with create.IH show ?thesis by simp
  next
    assume "\<exists>k b. k < MAX_PROCESSES \<and> b < NUM_BLOCKS \<and> unat (process_count s) < MAX_PROCESSES
        \<and> state (processes s ! k) = PROCESS_TERMINATED
        \<and> (\<forall>j<k. state (processes s ! j) \<noteq> PROCESS_TERMINATED)
        \<and> \<not> memory_map s ! b \<and> (\<forall>j<b. memory_map s ! j)
        \<and> process_create nm s = (Inr (word_of_nat k), install_process k b nm s)"
    then obtain k b where kb: "k < MAX_PROCESSES" "state (processes s ! k) = PROCESS_TERMINATED"
        "process_create nm s = (Inr (word_of_nat k), install_process k b nm s)" by blast
    with create.IH show ?thesis
      by (simp add: install_count_inv install_running_inv)
  qed
next
  case (terminate s p)
  then show ?case by (simp add: terminate_count_inv terminate_running_inv)
next
  case (schedule s s')
  from process_schedule_result [OF schedule.hyps(2)] show ?case
  proof
    assume "s' = s" with schedule.IH show ?thesis by simp
  next
    assume "\<exists>k<MAX_PROCESSES. k \<noteq> unat (current_process s)
       \<and> state (processes s ! k) = PROCESS_READY \<and> s' = switch_to k s"
    with schedule.IH show ?thesis
      by (auto simp: switch_to_count_inv switch_to_running_inv)
  qed
qed

lemma at_most_one_filter:
  "(\<And>i j. i < length xs \<Longrightarrow> j < length xs \<Longrightarrow> P (xs ! i) \<Longrightarrow> P (xs ! j) \<Longrightarrow> i = j)
   \<Longrightarrow> length (filter P xs) \<le> 1"
proof (induction xs)
  case Nil then show ?case by simp
next
  case (Cons x xs)
  have rest: "length (filter P xs) \<le> 1"
  proof (rule Cons.IH)
    fix i j assume "i < length xs" "j < length xs" "P (xs ! i)" "P (xs ! j)"
    with Cons.prems [of "Suc i" "Suc j"] show "i = j" by simp
  qed
  show ?case
  proof (cases "P x")
    case False
    with rest show ?thesis by simp
  next
    case True
    have "\<not> P y" if "y \<in> set xs" for y
    proof
      assume "P y"
      from that obtain j where "j < length xs" "xs ! j = y" by (auto simp: in_set_conv_nth)
      with Cons.prems [of 0 "Suc j"] True \<open>P y\<close> show False by simp
    qed
    then have "filter P xs = []" by (simp add: filter_empty_conv)
    with True show ?thesis by simp
  qed
qed

lemma shell_created_reachable: "proc_reachable shell_created"
  unfolding shell_created_def by (intro proc_reachable.create proc_reachable.init)

text \<open>
  Claim C10. In every state reachable from the initialized system by \<open>process_create\<close>,
  \<open>process_terminate\<close> and \<open>process_schedule\<close>, the stored process count is the
  number of slots whose state is not terminated, in a table of \<open>MAX_PROCESSES\<close> slots,
  so it is at most \<open>MAX_PROCESSES\<close>.
\<close>

theorem process_count_invariant:
  "proc_reachable s \<Longrightarrow>
   length (processes s) = MAX_PROCESSES
   \<and> unat (process_count s) = length (filter (\<lambda>p. state p \<noteq> PROCESS_TERMINATED) (processes s))
   \<and> unat (process_count s) \<le> MAX_PROCESSES"
proof -
  assume "proc_reachable s"
  then have "count_inv s" by (simp add: proc_reachable_inv)
  then have a: "length (processes s) = MAX_PROCESSES"
    and b: "unat (process_count s) = length (filter (\<lambda>p. state p \<noteq> PROCESS_TERMINATED) (processes s))"
    by (simp_all add: count_inv_def live_def [abs_def])
  have "length (filter (\<lambda>p. state p \<noteq> PROCESS_TERMINATED) (processes s)) \<le> length (processes s)"
    by (rule length_filter_le)
  with a b show ?thesis by simp
qed

text \<open>
  Example: after \<open>process_create("shell")\<close> the count is 1 and one slot is live.
\<close>

theorem process_count_invariant_witness:
  "proc_reachable shell_created \<and> process_count shell_created = 1
   \<and> length (filter (\<lambda>p. state p \<noteq> PROCESS_TERMINATED) (processes shell_created)) = 1"
  using process_count_invariant [OF shell_created_reachable]
  by (simp add: shell_created_reachable shell_created_fields)

text \<open>
  Claim C8. In every state reachable from the initialized system by \<open>process_create\<close>,
  \<open>process_terminate\<close> and \<open>process_schedule\<close>, at most one slot is running: the
  running slots number at most one, and two running slots are the same slot.
\<close>

theorem at_most_one_running:
  "proc_reachable s \<Longrightarrow>
   length (filter (\<lambda>p. state p = PROCESS_RUNNING) (processes s)) \<le> 1
   \<and> (\<forall>i<MAX_PROCESSES. \<forall>j<MAX_PROCESSES.
        state (processes s ! i) = PROCESS_RUNNING \<and> state (processes s ! j) = PROCESS_RUNNING \<longrightarrow> i = j)"
proof -
  assume "proc_reachable s"
  then have "running_inv s" by (simp add: proc_reachable_inv)
  then have len: "length (processes s) = MAX_PROCESSES"
    and only: "\<And>i. i < MAX_PROCESSES \<Longrightarrow> state (processes s ! i) = PROCESS_RUNNING \<Longrightarrow> i = unat (current_process s)"
    by (simp_all add: running_inv_def)
  have pw: "i = j" if "i < MAX_PROCESSES" "j < MAX_PROCESSES"
      "state (processes s ! i) = PROCESS_RUNNING" "state (processes s ! j) = PROCESS_RUNNING" for i j
    using only [OF that(1,3)] only [OF that(2,4)] by simp
  have "length (filter (\<lambda>p. state p = PROCESS_RUNNING) (processes s)) \<le> 1"
    by (rule at_most_one_filter) (simp add: len pw)
  with pw show ?thesis by blast
qed

text \<open>
  In a reachable state \<open>process_schedule\<close> returns, so every reachable state has a
  scheduling step.
\<close>

lemma proc_reachable_schedule_returns:
  "proc_reachable s \<Longrightarrow> \<exists>s'. process_schedule s = Some s' \<and> proc_reachable s'"
proof -
  assume r: "proc_reachable s"
  then have "running_inv s" by (simp add: proc_reachable_inv)
  then have "unat (current_process s) < MAX_PROCESSES" by (simp add: running_inv_def)
  then obtain s' where "process_schedule s = Some s'" using process_schedule_returns by blast
  with r show ?thesis by (auto intro: proc_reachable.schedule)
qed

lemma two_created_eq:
  "two_created = install_process 1 1 ''b'' (install_process 0 0 ''a'' os_init)"
proof -
  have a: "process_create ''a'' os_init = (Inr 0, install_process 0 0 ''a'' os_init)"
    using process_create_success [of os_init 0 0 "''a''"]
    by (simp add: os_init_fields consts_simps terminated_slot_def)
  have b: "process_create ''b'' (install_process 0 0 ''a'' os_init)
      = (Inr (word_of_nat 1), install_process 1 1 ''b'' (install_process 0 0 ''a'' os_init))"
    by (rule process_create_success)
      (simp_all add: install_process_def os_init_fields consts_simps terminated_slot_def)
  show ?thesis by (simp add: two_created_def a b)
qed

lemma two_created_fields:
  "length (processes two_created) = 16"
  "state (processes two_created ! 0) = PROCESS_READY"
  "state (processes two_created ! 1) = PROCESS_READY"
  "process_count two_created = 2"
  "current_process two_created = 0"
  by (simp_all add: two_created_eq install_process_def os_init_fields)

lemma two_scheduled_eq: "process_schedule two_created = Some (switch_to 1 two_created)"
proof -
  have "schedule_loop 1 two_created = Some (switch_to 1 two_created)"
    using schedule_loop.simps [of 1 two_created] two_created_fields by simp
  then show ?thesis by (simp add: process_schedule_def two_created_fields consts_simps)
qed

lemma two_scheduled_reachable: "proc_reachable two_scheduled"
proof -
  have "proc_reachable two_created"
    unfolding two_created_def by (intro proc_reachable.create proc_reachable.init)
  then have "proc_reachable (switch_to 1 two_created)"
    using two_scheduled_eq by (rule proc_reachable.schedule)
  then show ?thesis by (simp add: two_scheduled_def two_scheduled_eq)
qed

text \<open>
  Example: after two creations and one scheduling step, process 1 runs and process 0 is
  ready.
\<close>

theorem at_most_one_running_witness:
  "proc_reachable two_scheduled
   \<and> state (processes two_scheduled ! 0) = PROCESS_READY
   \<and> state (processes two_scheduled ! 1) = PROCESS_RUNNING
   \<and> length (filter (\<lambda>p. state p = PROCESS_RUNNING) (processes two_scheduled)) \<le> 1"
proof -
  have "state (processes two_scheduled ! 0) = PROCESS_READY"
    "state (processes two_scheduled ! 1) = PROCESS_RUNNING"
    using two_created_fields
    by (simp_all add: two_scheduled_def two_scheduled_eq switch_to_def Let_def)
  with at_most_one_running [OF two_scheduled_reachable] two_scheduled_reachable
  show ?thesis by simp
qed

section \<open>Scheduling a single process\<close>

text \<open>
  The loop of \<open>process_schedule\<close> starts at the slot after \<open>current_process\<close> and
  stops when it comes back to it, so it never examines the current slot: when no other
  slot is ready, the call changes nothing.
\<close>

lemma schedule_skips_current:
  assumes "unat (current_process s) < MAX_PROCESSES"
    and "\<forall>k<MAX_PROCESSES. k \<noteq> unat (current_process s) \<longrightarrow> state (processes s ! k) \<noteq> PROCESS_READY"
  shows "process_schedule s = Some s"
proof -
  from assms(1) obtain s' where s': "process_schedule s = Some s'"
    using process_schedule_returns by blast
  from process_schedule_result [OF s'] assms(2) have "s' = s" by blast
  with s' show ?thesis by simp
qed

lemma schedule_loop_finds:
  assumes c: "unat (current_process s) = c" "c < MAX_PROCESSES"
    and k: "k < MAX_PROCESSES" "k \<noteq> c" "state (processes s ! k) = PROCESS_READY"
    and others: "\<forall>j<MAX_PROCESSES. j \<noteq> k \<longrightarrow> j \<noteq> c \<longrightarrow> state (processes s ! j) \<noteq> PROCESS_READY"
  shows "n < MAX_PROCESSES \<Longrightarrow>
     (if k \<le> c then c - k else c + MAX_PROCESSES - k) \<le> (if n \<le> c then c - n else c + MAX_PROCESSES - n)
     \<Longrightarrow> schedule_loop n s = Some (switch_to k s)"
proof (induction "if n \<le> c then c - n else c + MAX_PROCESSES - n" arbitrary: n rule: less_induct)
  case less
  show ?case
  proof (cases "n = k")
    case True
    with k c(1) show ?thesis by (simp add: schedule_loop.simps [of k s])
  next
    case False
    from less.prems(2) k(1,2) c(2) have nc: "n \<noteq> c" by (auto split: if_splits)
    with False others less.prems(1) have nr: "state (processes s ! n) \<noteq> PROCESS_READY" by simp
    let ?n' = "(n + 1) mod MAX_PROCESSES"
    have lt: "?n' < MAX_PROCESSES" by (simp add: consts_simps)
    have dec: "(if ?n' \<le> c then c - ?n' else c + MAX_PROCESSES - ?n') + 1
            = (if n \<le> c then c - n else c + MAX_PROCESSES - n)"
      using next_slot_cases [OF less.prems(1)] nc c(2) less.prems(1) by auto
    have ne: "(if k \<le> c then c - k else c + MAX_PROCESSES - k) \<noteq> (if n \<le> c then c - n else c + MAX_PROCESSES - n)"
      using False k(1) c(2) less.prems(1) by (auto split: if_splits)
    have "schedule_loop ?n' s = Some (switch_to k s)"
      using dec ne less.prems(2) lt by (intro less.hyps) auto
    with nc nr c(1) show ?thesis by (simp add: schedule_loop.simps [of n s])
  qed
qed

text \<open>
  When the only live process is ready and sits in a slot other than \<open>current_process\<close>,
  \<open>process_schedule\<close> does promote it and make it current, and a second call leaves it
  running.
\<close>

lemma schedule_promotes_other_slot:
  assumes len: "length (processes s) = MAX_PROCESSES"
    and c: "unat (current_process s) < MAX_PROCESSES" and cnt: "process_count s \<noteq> 0"
    and k: "k < MAX_PROCESSES" "k \<noteq> unat (current_process s)" "state (processes s ! k) = PROCESS_READY"
    and others: "\<forall>j<MAX_PROCESSES. j \<noteq> k \<longrightarrow> state (processes s ! j) = PROCESS_TERMINATED"
  shows "process_schedule s = Some (switch_to k s)"
    and "state (processes (switch_to k s) ! k) = PROCESS_RUNNING"
    and "unat (current_process (switch_to k s)) = k"
    and "process_schedule (switch_to k s) = Some (switch_to k s)"
proof -
  let ?c = "unat (current_process s)"
  let ?n = "(?c + 1) mod MAX_PROCESSES"
  have n: "?n < MAX_PROCESSES" by (simp add: consts_simps)
  have "(if k \<le> ?c then ?c - k else ?c + MAX_PROCESSES - k) \<le> (if ?n \<le> ?c then ?c - ?n else ?c + MAX_PROCESSES - ?n)"
    using next_slot_cases [OF c] k(1,2) c by (auto simp: consts_simps)
  moreover have "\<forall>j<MAX_PROCESSES. j \<noteq> k \<longrightarrow> j \<noteq> ?c \<longrightarrow> state (processes s ! j) \<noteq> PROCESS_READY"
    using others by simp
  ultimately have "schedule_loop ?n s = Some (switch_to k s)"
    using c k n by (intro schedule_loop_finds [OF refl]) auto
  with cnt show "process_schedule s = Some (switch_to k s)" by (simp add: process_schedule_def)
  from others k(2) c have cs: "state (processes s ! ?c) = PROCESS_TERMINATED" by simp
  then have p: "processes (switch_to k s) = (processes s)[k := (processes s ! k)\<lparr>state := PROCESS_RUNNING\<rparr>]"
    by (simp add: switch_to_def Let_def)
  show "state (processes (switch_to k s) ! k) = PROCESS_RUNNING"
    using k(1) len by (simp add: p)
  show cur: "unat (current_process (switch_to k s)) = k"
    using k(1) by (simp add: switch_to_def Let_def unat_of_nat8 consts_simps)
  show "process_schedule (switch_to k s) = Some (switch_to k s)"
  proof (rule schedule_skips_current)
    show "unat (current_process (switch_to k s)) < MAX_PROCESSES" using cur k(1) by simp
    show "\<forall>j<MAX_PROCESSES. j \<noteq> unat (current_process (switch_to k s)) \<longrightarrow>
        state (processes (switch_to k s) ! j) \<noteq> PROCESS_READY"
      using others by (simp add: cur p)
  qed
qed

text \<open>
  Claim C1, on the code. From the initialized system \<open>process_create("shell")\<close> returns
  pid 0, in state ready, and it is the only live process. \<open>current_process\<close> is 0 too,
  so \<open>process_schedule\<close> returns with the state unchanged: process 0 is still ready,
  not running.
\<close>

theorem schedule_leaves_first_process_ready:
  "process_create ''shell'' os_init = (Inr 0, shell_created)
   \<and> state (processes shell_created ! 0) = PROCESS_READY
   \<and> length (filter live (processes shell_created)) = 1
   \<and> process_schedule shell_created = Some shell_created
   \<and> state (processes (the (process_schedule shell_created)) ! 0) \<noteq> PROCESS_RUNNING"
proof -
  have a: "process_create ''shell'' os_init = (Inr 0, shell_created)"
    by (simp add: shell_created_def shell_created_eq)
  have "count_inv shell_created" using shell_created_reachable by (simp add: proc_reachable_inv)
  then have b: "length (filter live (processes shell_created)) = 1"
    by (simp add: count_inv_def shell_created_fields)
  have c: "process_schedule shell_created = Some shell_created"
  proof (rule schedule_skips_current)
    show "unat (current_process shell_created) < MAX_PROCESSES"
      by (simp add: shell_created_fields consts_simps)
    show "\<forall>k<MAX_PROCESSES. k \<noteq> unat (current_process shell_created) \<longrightarrow>
        state (processes shell_created ! k) \<noteq> PROCESS_READY"
      by (simp add: shell_created_fields consts_simps terminated_slot_def)
  qed
  from a b c show ?thesis by (simp add: shell_created_fields)
qed

section \<open>Filling the process table\<close>

lemma full_upto_init: "full_upto 0 os_init"
  by (simp add: full_upto_def os_init_fields consts_simps terminated_slot_def)

lemma full_upto_create:
  assumes "full_upto k s" "k < MAX_PROCESSES"
  shows "process_create nm s = (Inr (word_of_nat k), install_process k k nm s)"
    and "full_upto (Suc k) (install_process k k nm s)"
proof -
  from assms have len: "length (processes s) = MAX_PROCESSES" "length (memory_map s) = NUM_BLOCKS"
    and cnt: "unat (process_count s) = k"
    and lo: "\<And>i. i < k \<Longrightarrow> state (processes s ! i) \<noteq> PROCESS_TERMINATED
                   \<and> memory_start (processes s ! i) = word_of_nat (i * PROCESS_MEMORY_SIZE)
                   \<and> memory_map s ! i"
    and hi: "\<And>i. k \<le> i \<Longrightarrow> i < MAX_PROCESSES \<Longrightarrow> state (processes s ! i) = PROCESS_TERMINATED \<and> \<not> memory_map s ! i"
    by (simp_all add: full_upto_def)
  have kb: "k < NUM_BLOCKS" using assms(2) by (simp add: consts_simps)
  show "process_create nm s = (Inr (word_of_nat k), install_process k k nm s)"
    using assms(2) cnt lo hi [of k] kb by (intro process_create_success) auto
  have c: "unat (process_count s + 1) = Suc k"
    using unat_succ8 [of "process_count s"] cnt assms(2) by (simp add: consts_simps)
  show "full_upto (Suc k) (install_process k k nm s)"
    unfolding full_upto_def
  proof (intro conjI allI impI)
    show "length (processes (install_process k k nm s)) = MAX_PROCESSES"
      by (simp add: install_process_def len)
    show "length (memory_map (install_process k k nm s)) = NUM_BLOCKS"
      by (simp add: install_process_def len)
    show "unat (process_count (install_process k k nm s)) = Suc k"
      by (simp add: install_process_def c)
  next
    fix i assume i: "i < MAX_PROCESSES" "i < Suc k"
    show "state (processes (install_process k k nm s) ! i) \<noteq> PROCESS_TERMINATED"
      using i lo [of i] assms(2) len by (cases "i = k") (simp_all add: install_process_def)
    show "memory_start (processes (install_process k k nm s) ! i) = word_of_nat (i * PROCESS_MEMORY_SIZE)"
      using i lo [of i] assms(2) len by (cases "i = k") (simp_all add: install_process_def)
    show "memory_map (install_process k k nm s) ! i"
      using i lo [of i] kb len by (cases "i = k") (simp_all add: install_process_def)
  next
    fix i assume i: "i < MAX_PROCESSES" "Suc k \<le> i"
    show "state (processes (install_process k k nm s) ! i) = PROCESS_TERMINATED"
      using i hi [of i] by (simp add: install_process_def)
    show "\<not> memory_map (install_process k k nm s) ! i"
      using i hi [of i] by (simp add: install_process_def)
  qed
qed

lemma create_many_full_upto:
  "full_upto k s \<Longrightarrow> k + length nms \<le> MAX_PROCESSES \<Longrightarrow>
   fst (create_many nms s) = map (\<lambda>i. Inr (word_of_nat i)) [k..<k + length nms]
   \<and> full_upto (k + length nms) (snd (create_many nms s))"
proof (induction nms arbitrary: k s)
  case Nil
  then show ?case by simp
next
  case (Cons nm nms)
  from Cons.prems have k: "k < MAX_PROCESSES" by simp
  note c = full_upto_create [OF Cons.prems(1) k, of nm]
  from Cons.prems(2) have "Suc k + length nms \<le> MAX_PROCESSES" by simp
  from Cons.IH [OF c(2) this]
  have r: "fst (create_many nms (install_process k k nm s)) = map (\<lambda>i. Inr (word_of_nat i)) [Suc k..<Suc (k + length nms)]"
    and f: "full_upto (Suc (k + length nms)) (snd (create_many nms (install_process k k nm s)))"
    by (simp_all del: upt_Suc)
  have u: "[k..<Suc (k + length nms)] = k # [Suc k..<Suc (k + length nms)]"
    by (rule upt_conv_Cons) simp
  show ?case
    using r f by (simp add: c(1) split_beta u del: upt_Suc)
qed

lemma full_upto_terminate_create:
  assumes f: "full_upto MAX_PROCESSES s" and p: "unat p < MAX_PROCESSES"
  shows "fst (process_create nm (process_terminate p s)) = Inr p"
proof -
  let ?k = "unat p"
  let ?q = "(processes s ! ?k)\<lparr>state := PROCESS_TERMINATED\<rparr>"
  from f have len: "length (processes s) = MAX_PROCESSES" "length (memory_map s) = NUM_BLOCKS"
    and cnt: "unat (process_count s) = MAX_PROCESSES"
    and lo: "\<And>i. i < MAX_PROCESSES \<Longrightarrow> state (processes s ! i) \<noteq> PROCESS_TERMINATED
                   \<and> memory_start (processes s ! i) = word_of_nat (i * PROCESS_MEMORY_SIZE)
                   \<and> memory_map s ! i"
    by (simp_all add: full_upto_def)
  have blk: "unat (memory_start (processes s ! ?k)) div PROCESS_MEMORY_SIZE = ?k"
    using lo [OF p] p block_offset_unat [of ?k] by (simp add: consts_simps)
  have t: "process_terminate p s =
        s\<lparr>memory_map := (memory_map s)[?k := False],
          processes := (processes s)[?k := ?q], process_count := process_count s - 1\<rparr>"
  proof -
    have "state (processes s ! ?k) \<noteq> PROCESS_TERMINATED" using lo [OF p] by simp
    with p show ?thesis by (simp add: process_terminate_def memory_free_eq Let_def blk)
  qed
  have "0 < unat (process_count s)" using cnt by (simp add: consts_simps)
  then have c: "unat (process_count s - 1) < MAX_PROCESSES"
    using unat_pred8 [of "process_count s"] cnt by (simp add: consts_simps)
  have kb: "?k < NUM_BLOCKS" using p by (simp add: consts_simps)
  have "process_create nm (process_terminate p s)
      = (Inr (word_of_nat ?k), install_process ?k ?k nm (process_terminate p s))"
  proof (rule process_create_success)
    show "unat (process_count (process_terminate p s)) < MAX_PROCESSES" by (simp add: t c)
    show "?k < MAX_PROCESSES" by (rule p)
    show "state (processes (process_terminate p s) ! ?k) = PROCESS_TERMINATED"
      using p len by (simp add: t)
    show "\<forall>j<?k. state (processes (process_terminate p s) ! j) \<noteq> PROCESS_TERMINATED"
      using p lo by (simp add: t)
    show "?k < NUM_BLOCKS" by (rule kb)
    show "\<not> memory_map (process_terminate p s) ! ?k" using kb len by (simp add: t)
    show "\<forall>j<?k. memory_map (process_terminate p s) ! j" using p lo by (simp add: t)
  qed
  then show ?thesis by simp
qed

text \<open>
  Claim C9. From the initialized system, \<open>MAX_PROCESSES\<close> calls of \<open>process_create\<close>
  (with any names) succeed and return the pids 0, 1, ... in order; the next call fails
  with \<open>TableFull\<close> and changes nothing; and after \<open>process_terminate p\<close> for any
  \<open>p\<close> in range, the next \<open>process_create\<close> succeeds and returns \<open>p\<close>.
\<close>

theorem create_fill_and_reuse:
  assumes "length nms = MAX_PROCESSES"
  shows "fst (create_many nms os_init) = map (\<lambda>i. Inr (word_of_nat i)) [0..<MAX_PROCESSES]
    \<and> process_create nm (snd (create_many nms os_init)) = (Inl TableFull, snd (create_many nms os_init))
    \<and> (unat p < MAX_PROCESSES \<longrightarrow>
         fst (process_create nm' (process_terminate p (snd (create_many nms os_init)))) = Inr p)"
proof -
  let ?s = "snd (create_many nms os_init)"
  from create_many_full_upto [OF full_upto_init, of nms] assms
  have r: "fst (create_many nms os_init) = map (\<lambda>i. Inr (word_of_nat i)) [0..<MAX_PROCESSES]"
    and f: "full_upto MAX_PROCESSES ?s" by simp_all
  from f have "unat (process_count ?s) = MAX_PROCESSES" by (simp add: full_upto_def)
  then have "process_create nm ?s = (Inl TableFull, ?s)" by (simp add: process_create_def)
  with r f show ?thesis by (simp add: full_upto_terminate_create)
qed

text \<open>
  Example: sixteen processes named \<open>job\<close>, one more, and pid 3 terminated and reused.
\<close>

theorem create_fill_and_reuse_witness:
  "length (replicate 16 ''job'') = MAX_PROCESSES
   \<and> fst (create_many (replicate 16 ''job'') os_init) = map (\<lambda>i. Inr (word_of_nat i)) [0..<MAX_PROCESSES]
   \<and> fst (process_create ''more'' (snd (create_many (replicate 16 ''job'') os_init))) = Inl TableFull
   \<and> fst (process_create ''again'' (process_terminate 3 (snd (create_many (replicate 16 ''job'') os_init)))) = Inr 3"
proof -
  have l: "length (replicate 16 ''job'') = MAX_PROCESSES" by (simp add: consts_simps)
  have p: "unat (3 :: 8 word) < MAX_PROCESSES" by (simp add: consts_simps)
  from create_fill_and_reuse [OF l, of "''more''" 3 "''again''"] p l show ?thesis by simp
qed

section \<open>File names\<close>

lemma cstr_simps: "cstr [] = []" "cstr (x # xs) = (if x \<noteq> NUL then x # cstr xs else [])"
  by (simp_all add: cstr_def)

lemma cstr_length_le: "length (cstr str) \<le> length str"
  by (simp add: cstr_def length_takeWhile_le)

lemma cstr_no_NUL: "NUL \<notin> set (cstr str)"
  by (auto simp: cstr_def dest: set_takeWhileD)

lemma drop_char_at:
  "drop j str = (if j < length str then char_at str j # drop (Suc j) str else [])"
  by (simp add: char_at_def Cons_nth_drop_Suc)

lemma name_match_drop:
  "j \<le> MAX_FILENAME_LEN \<Longrightarrow> length stored = MAX_FILENAME_LEN \<Longrightarrow> NUL \<in> set (drop j stored)
   \<Longrightarrow> name_match_loop stored fname j = (cstr (drop j stored) = cstr (drop j fname))"
proof (induction stored fname j rule: name_match_loop.induct)
  case (1 stored fname j)
  show ?case
  proof (cases "j < MAX_FILENAME_LEN")
    case False
    with "1.prems" show ?thesis by simp
  next
    case True
    with "1.prems" have ds: "drop j stored = stored ! j # drop (Suc j) stored"
      by (simp add: Cons_nth_drop_Suc)
    have df: "drop j fname = (if j < length fname then char_at fname j # drop (Suc j) fname else [])"
      by (rule drop_char_at)
    have nul: "char_at fname j = NUL" if "\<not> j < length fname" using that by (simp add: char_at_def)
    show ?thesis
    proof (cases "stored ! j \<noteq> char_at fname j")
      case ne: True
      have "cstr (drop j stored) \<noteq> cstr (drop j fname)"
        using ne nul unfolding ds df by (auto simp: cstr_simps)
      with True ne show ?thesis by (simp add: name_match_loop.simps [of stored fname j])
    next
      case eq: False
      show ?thesis
      proof (cases "char_at fname j = NUL")
        case z: True
        have "cstr (drop j stored) = cstr (drop j fname)"
          using eq z unfolding ds df by (auto simp: cstr_simps)
        with True eq z show ?thesis by (simp add: name_match_loop.simps [of stored fname j])
      next
        case nz: False
        with nul have jl: "j < length fname" by blast
        from nz eq "1.prems"(3) have "NUL \<in> set (drop (Suc j) stored)" unfolding ds by auto
        with "1.IH" [OF True _ nz] eq True "1.prems"(2)
        have "name_match_loop stored fname (j + 1) = (cstr (drop (Suc j) stored) = cstr (drop (Suc j) fname))"
          by simp
        moreover have "(cstr (drop j stored) = cstr (drop j fname))
            = (cstr (drop (Suc j) stored) = cstr (drop (Suc j) fname))"
          using eq nz jl unfolding ds df by (simp add: cstr_simps)
        ultimately show ?thesis using True eq nz
          by (simp add: name_match_loop.simps [of stored fname j])
      qed
    qed
  qed
qed

lemma name_match_cstr:
  "length stored = MAX_FILENAME_LEN \<Longrightarrow> NUL \<in> set stored
   \<Longrightarrow> name_match_loop stored fname 0 = (cstr stored = cstr fname)"
  using name_match_drop [of 0 stored fname] by simp

lemma char_at_cstr:
  assumes "i < length (cstr str)"
  shows "char_at str i = cstr str ! i" and "char_at str i \<noteq> NUL"
proof -
  from assms have l: "i < length str" using cstr_length_le [of str] by simp
  from assms have e: "cstr str ! i = str ! i" unfolding cstr_def by (rule takeWhile_nth)
  from assms have "cstr str ! i \<in> set (cstr str)" by simp
  then have "cstr str ! i \<noteq> NUL" using cstr_no_NUL [of str] by metis
  with l e show "char_at str i = cstr str ! i" and "char_at str i \<noteq> NUL"
    by (simp_all add: char_at_def)
qed

lemma char_at_cstr_end: "char_at str (length (cstr str)) = NUL"
proof (cases "length (cstr str) < length str")
  case True
  then have "\<not> (str ! length (cstr str) \<noteq> NUL)"
    unfolding cstr_def by (rule nth_length_takeWhile)
  with True show ?thesis by (simp add: char_at_def)
next
  case False
  then show ?thesis by (simp add: char_at_def)
qed

lemma copy_name_loop_result:
  "i \<le> 31 \<Longrightarrow> i \<le> length (cstr src) \<Longrightarrow> 31 < length dst \<Longrightarrow> take i dst = take i (cstr src)
   \<Longrightarrow> copy_name_loop src i dst =
       (min 31 (length (cstr src)), take (min 31 (length (cstr src))) (cstr src) @ drop (min 31 (length (cstr src))) dst)"
proof (induction src i dst rule: copy_name_loop.induct)
  case (1 src i dst)
  let ?n = "min 31 (length (cstr src))"
  show ?case
  proof (cases "char_at src i \<noteq> NUL \<and> i < 31")
    case True
    with "1.prems"(2) char_at_cstr_end [of src] have il: "i < length (cstr src)"
      by (cases "i = length (cstr src)") auto
    let ?d = "dst[i := char_at src i]"
    have t: "take (i + 1) ?d = take (i + 1) (cstr src)"
    proof -
      have "take (Suc i) ?d = take i ?d @ [?d ! i]"
        using "1.prems"(1,3) by (intro take_Suc_conv_app_nth) simp
      also have "\<dots> = take i dst @ [char_at src i]" using "1.prems"(1,3) by simp
      also have "\<dots> = take i (cstr src) @ [cstr src ! i]"
        using "1.prems"(4) char_at_cstr(1) [OF il] by simp
      also have "\<dots> = take (Suc i) (cstr src)"
        using il by (simp add: take_Suc_conv_app_nth)
      finally show ?thesis by simp
    qed
    have "copy_name_loop src (i + 1) ?d = (?n, take ?n (cstr src) @ drop ?n ?d)"
      using True il "1.prems"(3) t by (intro "1.IH") auto
    moreover have "drop ?n ?d = drop ?n dst" using True il by simp
    ultimately show ?thesis using True by (simp add: copy_name_loop.simps [of src i dst])
  next
    case False
    have n: "?n = i"
    proof (cases "i < 31")
      case True
      with False have "char_at src i = NUL" by simp
      with char_at_cstr(2) [of i src] have "\<not> i < length (cstr src)" by blast
      with "1.prems"(2) True show ?thesis by simp
    next
      case False
      with "1.prems"(1,2) show ?thesis by simp
    qed
    have d: "take i (cstr src) @ drop i dst = dst"
      using "1.prems"(4) [symmetric] by simp
    from False have "copy_name_loop src i dst = (i, dst)"
      using copy_name_loop.simps [of src i dst] by auto
    then show ?thesis unfolding n d .
  qed
qed

lemma copy_name_eq:
  assumes "length dst = MAX_FILENAME_LEN"
  shows "copy_name src dst = take 31 (cstr src) @ NUL # drop (Suc (min 31 (length (cstr src)))) dst"
proof -
  define n where "n = min 31 (length (cstr src))"
  from assms have l: "31 < length dst" by (simp add: consts_simps)
  have n31: "n \<le> 31" by (simp add: n_def)
  have "copy_name_loop src 0 dst = (n, take n (cstr src) @ drop n dst)"
    unfolding n_def using l by (intro copy_name_loop_result) simp_all
  then have "copy_name src dst = (take n (cstr src) @ drop n dst)[n := NUL]"
    by (simp add: copy_name_def)
  also have "length (take n (cstr src)) = n" by (simp add: n_def)
  then have "(take n (cstr src) @ drop n dst)[n := NUL] = take n (cstr src) @ (drop n dst)[0 := NUL]"
    by (simp add: list_update_append)
  also have "drop n dst = dst ! n # drop (Suc n) dst"
    using l n31 by (simp add: Cons_nth_drop_Suc)
  also have "take n (cstr src) = take 31 (cstr src)" by (simp add: n_def min_def)
  finally show ?thesis by (simp add: n_def)
qed

lemma copy_name_props:
  assumes "length dst = MAX_FILENAME_LEN"
  shows "length (copy_name src dst) = MAX_FILENAME_LEN"
    and "NUL \<in> set (copy_name src dst)"
    and "cstr (copy_name src dst) = take 31 (cstr src)"
proof -
  define n where "n = min 31 (length (cstr src))"
  define rest where "rest = drop (Suc n) dst"
  have e: "copy_name src dst = take 31 (cstr src) @ NUL # rest"
    using copy_name_eq [OF assms, of src] by (simp add: n_def rest_def)
  have ln: "length (take 31 (cstr src)) = n" by (simp add: n_def)
  have lr: "length rest = 31 - n" using assms by (simp add: rest_def consts_simps)
  have "n \<le> 31" by (simp add: n_def)
  with ln lr show "length (copy_name src dst) = MAX_FILENAME_LEN"
    unfolding e by (simp add: consts_simps)
  show "NUL \<in> set (copy_name src dst)" unfolding e by simp
  have "\<And>x. x \<in> set (take 31 (cstr src)) \<Longrightarrow> x \<noteq> NUL"
    using cstr_no_NUL [of src] in_set_takeD [of _ 31 "cstr src"] by blast
  then have "takeWhile (\<lambda>c. c \<noteq> NUL) (take 31 (cstr src) @ NUL # rest) = take 31 (cstr src) @ takeWhile (\<lambda>c. c \<noteq> NUL) (NUL # rest)"
    by (rule takeWhile_append2)
  then show "cstr (copy_name src dst) = take 31 (cstr src)"
    unfolding e cstr_def by simp
qed

section \<open>The file table\<close>

lemma fs_create_code_values:
  "fs_create_code (Inl TableFull) = -1" "fs_create_code (Inl AlreadyExists) = -2"
  "fs_create_code (Inr i) = int i"
  by (simp_all add: fs_create_code_def)

lemma fs_find_free_found:
  "i \<le> k \<Longrightarrow> k < MAX_FILES \<Longrightarrow> \<not> in_use (file_table s ! k)
   \<Longrightarrow> (\<forall>j. i \<le> j \<and> j < k \<longrightarrow> in_use (file_table s ! j))
   \<Longrightarrow> fs_find_free_loop i s = int k"
proof (induction i s rule: fs_find_free_loop.induct)
  case (1 i s)
  show ?case
  proof (cases "i = k")
    case True
    with "1.prems" show ?thesis by (simp add: fs_find_free_loop.simps [of k s])
  next
    case False
    with "1.prems" have lt: "i < k" and used: "in_use (file_table s ! i)" by auto
    from lt "1.prems" have il: "i < MAX_FILES" by simp
    have "fs_find_free_loop (i + 1) s = int k"
      using "1.IH" [OF il] used lt "1.prems" by auto
    with il used show ?thesis by (simp add: fs_find_free_loop.simps [of i s])
  qed
qed

lemma fs_find_free_none:
  "(\<forall>j. i \<le> j \<and> j < MAX_FILES \<longrightarrow> in_use (file_table s ! j)) \<Longrightarrow> fs_find_free_loop i s = -1"
proof (induction i s rule: fs_find_free_loop.induct)
  case (1 i s)
  show ?case
  proof (cases "i < MAX_FILES")
    case True
    with "1.prems" have used: "in_use (file_table s ! i)" by simp
    have "fs_find_free_loop (i + 1) s = -1"
      using "1.IH" [OF True] used "1.prems" by auto
    with True used show ?thesis by (simp add: fs_find_free_loop.simps [of i s])
  next
    case False
    then show ?thesis by (simp add: fs_find_free_loop.simps [of i s])
  qed
qed

lemma fs_exists_iff:
  "fs_exists_loop i fname s
     = (\<exists>k. i \<le> k \<and> k < MAX_FILES \<and> in_use (file_table s ! k)
            \<and> name_match_loop (filename (file_table s ! k)) fname 0)"
proof (induction i fname s rule: fs_exists_loop.induct)
  case (1 i fname s)
  let ?hit = "\<lambda>k. in_use (file_table s ! k) \<and> name_match_loop (filename (file_table s ! k)) fname 0"
  show ?case
  proof (cases "i < MAX_FILES")
    case False
    then show ?thesis by (simp add: fs_exists_loop.simps [of i fname s])
  next
    case True
    show ?thesis
    proof (cases "?hit i")
      case hit: True
      with True have "fs_exists_loop i fname s" by (simp add: fs_exists_loop.simps [of i fname s])
      moreover from True hit have "\<exists>k. i \<le> k \<and> k < MAX_FILES \<and> ?hit k" by blast
      ultimately show ?thesis by simp
    next
      case miss: False
      with True have "fs_exists_loop i fname s = fs_exists_loop (i + 1) fname s"
        using fs_exists_loop.simps [of i fname s] by auto
      also have "\<dots> = (\<exists>k. i + 1 \<le> k \<and> k < MAX_FILES \<and> ?hit k)"
        using "1.IH" [OF True] miss by simp
      also have "\<dots> = (\<exists>k. i \<le> k \<and> k < MAX_FILES \<and> ?hit k)"
        using miss by (metis Suc_eq_plus1 Suc_leI le_neq_implies_less Suc_leD)
      finally show ?thesis .
    qed
  qed
qed

lemma files_wf_nth:
  "files_wf s \<Longrightarrow> k < MAX_FILES \<Longrightarrow>
   length (filename (file_table s ! k)) = MAX_FILENAME_LEN \<and> NUL \<in> set (filename (file_table s ! k))"
  by (simp add: files_wf_def list_all_length)

lemma fs_exists_cstr:
  assumes "files_wf s"
  shows "fs_exists_loop 0 fname s
     = (\<exists>k<MAX_FILES. in_use (file_table s ! k) \<and> cstr (filename (file_table s ! k)) = cstr fname)"
proof -
  have "name_match_loop (filename (file_table s ! k)) fname 0 = (cstr (filename (file_table s ! k)) = cstr fname)"
    if "k < MAX_FILES" for k
    using files_wf_nth [OF assms that] by (intro name_match_cstr) auto
  then show ?thesis unfolding fs_exists_iff by auto
qed

lemma fs_create_full:
  "(\<forall>i<MAX_FILES. in_use (file_table s ! i)) \<Longrightarrow> fs_create fname s = (Inl TableFull, s)"
proof -
  assume "\<forall>i<MAX_FILES. in_use (file_table s ! i)"
  then have "fs_find_free_loop 0 s = -1" by (intro fs_find_free_none) auto
  then show ?thesis by (simp add: fs_create_def)
qed

lemma fs_find_free_least:
  assumes "i < MAX_FILES" "\<not> in_use (file_table s ! i)" "\<forall>j<i. in_use (file_table s ! j)"
  shows "fs_find_free_loop 0 s = int i"
  using assms by (intro fs_find_free_found) auto

lemma fs_create_dup:
  assumes "\<exists>i<MAX_FILES. \<not> in_use (file_table s ! i)" and "fs_exists_loop 0 fname s"
  shows "fs_create fname s = (Inl AlreadyExists, s)"
proof -
  from assms(1) obtain i where "i < MAX_FILES" "\<not> in_use (file_table s ! i)" "\<forall>j<i. in_use (file_table s ! j)"
    using least_index [of MAX_FILES "\<lambda>i. \<not> in_use (file_table s ! i)"] by auto
  then have "fs_find_free_loop 0 s = int i" by (rule fs_find_free_least)
  with assms(2) show ?thesis by (simp add: fs_create_def)
qed

lemma fs_create_fresh:
  assumes "i < MAX_FILES" "\<not> in_use (file_table s ! i)" "\<forall>j<i. in_use (file_table s ! j)"
    and "\<not> fs_exists_loop 0 fname s"
  shows "fs_create fname s = (Inr i, s\<lparr>file_table := (file_table s)[i := new_entry fname i s]\<rparr>)"
proof -
  from assms(1-3) have "fs_find_free_loop 0 s = int i" by (rule fs_find_free_least)
  with assms(4) show ?thesis by (simp add: fs_create_def new_entry_def Let_def)
qed

lemma fs_create_cases:
  "snd (fs_create fname s) = s
   \<or> (\<exists>i<MAX_FILES. snd (fs_create fname s) = s\<lparr>file_table := (file_table s)[i := new_entry fname i s]\<rparr>)"
proof (cases "\<exists>i<MAX_FILES. \<not> in_use (file_table s ! i)")
  case False
  then show ?thesis by (simp add: fs_create_full)
next
  case True
  show ?thesis
  proof (cases "fs_exists_loop 0 fname s")
    case True
    with \<open>\<exists>i<MAX_FILES. \<not> in_use (file_table s ! i)\<close> show ?thesis by (simp add: fs_create_dup)
  next
    case False
    from True obtain i where i: "i < MAX_FILES" "\<not> in_use (file_table s ! i)" "\<forall>j<i. in_use (file_table s ! j)"
      using least_index [of MAX_FILES "\<lambda>i. \<not> in_use (file_table s ! i)"] by auto
    from fs_create_fresh [OF i False] i(1) show ?thesis by auto
  qed
qed

text \<open>
  Claim C7. On a well-formed file table \<open>fs_create\<close> checks capacity first: with no
  free entry it fails with \<open>TableFull\<close>, whatever the name. With a free entry, if an
  entry in use holds exactly the name given (the same C string), it fails with
  \<open>AlreadyExists\<close>; in both cases the state is unchanged. Otherwise it returns the
  lowest free index, and the table changes at that entry only, which is marked in use
  with size and start block 0 and holds the name cut to 31 characters.
\<close>

theorem fs_create_capacity_then_uniqueness:
  assumes "files_wf s"
  shows "((\<forall>i<MAX_FILES. in_use (file_table s ! i)) \<longrightarrow> fs_create fname s = (Inl TableFull, s))
   \<and> ((\<exists>i<MAX_FILES. \<not> in_use (file_table s ! i))
        \<and> (\<exists>k<MAX_FILES. in_use (file_table s ! k) \<and> cstr (filename (file_table s ! k)) = cstr fname)
        \<longrightarrow> fs_create fname s = (Inl AlreadyExists, s))
   \<and> (i < MAX_FILES \<and> \<not> in_use (file_table s ! i) \<and> (\<forall>j<i. in_use (file_table s ! j))
        \<and> (\<forall>k<MAX_FILES. in_use (file_table s ! k) \<longrightarrow> cstr (filename (file_table s ! k)) \<noteq> cstr fname)
        \<longrightarrow> fs_create fname s =
              (Inr i, s\<lparr>file_table := (file_table s)[i :=
                 (file_table s ! i)\<lparr>filename := copy_name fname (filename (file_table s ! i)),
                                    start_block := 0, fsize := 0, in_use := True\<rparr>]\<rparr>)
            \<and> cstr (copy_name fname (filename (file_table s ! i))) = take 31 (cstr fname))"
proof (intro conjI impI)
  assume "\<forall>i<MAX_FILES. in_use (file_table s ! i)"
  then show "fs_create fname s = (Inl TableFull, s)" by (rule fs_create_full)
next
  assume h: "(\<exists>i<MAX_FILES. \<not> in_use (file_table s ! i))
        \<and> (\<exists>k<MAX_FILES. in_use (file_table s ! k) \<and> cstr (filename (file_table s ! k)) = cstr fname)"
  then have "fs_exists_loop 0 fname s" by (simp add: fs_exists_cstr [OF assms])
  with h show "fs_create fname s = (Inl AlreadyExists, s)" by (intro fs_create_dup) auto
next
  assume h: "i < MAX_FILES \<and> \<not> in_use (file_table s ! i) \<and> (\<forall>j<i. in_use (file_table s ! j))
        \<and> (\<forall>k<MAX_FILES. in_use (file_table s ! k) \<longrightarrow> cstr (filename (file_table s ! k)) \<noteq> cstr fname)"
  then have "\<not> fs_exists_loop 0 fname s" by (simp add: fs_exists_cstr [OF assms])
  with h have "fs_create fname s = (Inr i, s\<lparr>file_table := (file_table s)[i := new_entry fname i s]\<rparr>)"
    by (intro fs_create_fresh) auto
  then show "fs_create fname s =
              (Inr i, s\<lparr>file_table := (file_table s)[i :=
                 (file_table s ! i)\<lparr>filename := copy_name fname (filename (file_table s ! i)),
                                    start_block := 0, fsize := 0, in_use := True\<rparr>]\<rparr>)"
    by (simp add: new_entry_def)
  from h files_wf_nth [OF assms, of i]
  show "cstr (copy_name fname (filename (file_table s ! i))) = take 31 (cstr fname)"
    by (intro copy_name_props(3)) simp
qed

lemma fs_delete_loop_cases:
  "snd (fs_delete_loop i fname s) = s
   \<or> (\<exists>k<MAX_FILES. snd (fs_delete_loop i fname s)
         = s\<lparr>file_table := (file_table s)[k := (file_table s ! k)\<lparr>in_use := False\<rparr>]\<rparr>)"
proof (induction i fname s rule: fs_delete_loop.induct)
  case (1 i fname s)
  show ?case
  proof (cases "i < MAX_FILES")
    case False
    then show ?thesis by (simp add: fs_delete_loop.simps [of i fname s])
  next
    case True
    show ?thesis
    proof (cases "in_use (file_table s ! i) \<and> name_match_loop (filename (file_table s ! i)) fname 0")
      case hit: True
      with True have "snd (fs_delete_loop i fname s)
          = s\<lparr>file_table := (file_table s)[i := (file_table s ! i)\<lparr>in_use := False\<rparr>]\<rparr>"
        by (simp add: fs_delete_loop.simps [of i fname s])
      with True show ?thesis by blast
    next
      case miss: False
      with True have "fs_delete_loop i fname s = fs_delete_loop (i + 1) fname s"
        using fs_delete_loop.simps [of i fname s] by auto
      with "1.IH" [OF True miss] show ?thesis by simp
    qed
  qed
qed

lemma files_wf_update:
  assumes "files_wf s" "k < MAX_FILES"
    and "length (filename e) = MAX_FILENAME_LEN" "NUL \<in> set (filename e)"
  shows "files_wf (s\<lparr>file_table := (file_table s)[k := e]\<rparr>)"
  using assms by (auto simp: files_wf_def list_all_length nth_list_update)

lemma files_wf_create: "files_wf s \<Longrightarrow> files_wf (snd (fs_create fname s))"
proof -
  assume wf: "files_wf s"
  from fs_create_cases [of fname s] show ?thesis
  proof
    assume "snd (fs_create fname s) = s" with wf show ?thesis by simp
  next
    assume "\<exists>i<MAX_FILES. snd (fs_create fname s) = s\<lparr>file_table := (file_table s)[i := new_entry fname i s]\<rparr>"
    then obtain i where i: "i < MAX_FILES"
      and e: "snd (fs_create fname s) = s\<lparr>file_table := (file_table s)[i := new_entry fname i s]\<rparr>"
      by blast
    from files_wf_nth [OF wf i] have l: "length (filename (file_table s ! i)) = MAX_FILENAME_LEN" by simp
    show ?thesis unfolding e using wf i
      by (rule files_wf_update) (simp_all add: new_entry_def copy_name_props [OF l])
  qed
qed

lemma files_wf_delete: "files_wf s \<Longrightarrow> files_wf (snd (fs_delete fname s))"
proof -
  assume wf: "files_wf s"
  from fs_delete_loop_cases [of 0 fname s] show ?thesis
  proof
    assume "snd (fs_delete_loop 0 fname s) = s" with wf show ?thesis by (simp add: fs_delete_def)
  next
    assume "\<exists>k<MAX_FILES. snd (fs_delete_loop 0 fname s)
         = s\<lparr>file_table := (file_table s)[k := (file_table s ! k)\<lparr>in_use := False\<rparr>]\<rparr>"
    then obtain k where k: "k < MAX_FILES"
      and e: "snd (fs_delete fname s) = s\<lparr>file_table := (file_table s)[k := (file_table s ! k)\<lparr>in_use := False\<rparr>]\<rparr>"
      by (auto simp: fs_delete_def)
    show ?thesis unfolding e using wf k
      by (rule files_wf_update) (simp_all add: files_wf_nth [OF wf k])
  qed
qed

lemma files_wf_init: "files_wf os_init"
  by (simp add: files_wf_def os_init_fields consts_simps list_all_length free_entry_def)

text \<open>Every state the file operations reach has a well-formed file table.\<close>

lemma fs_reachable_wf: "fs_reachable s \<Longrightarrow> files_wf s"
  by (induction rule: fs_reachable.induct) (simp_all add: files_wf_init files_wf_create files_wf_delete)

section \<open>A name longer than the name array\<close>

lemma cstr_long_name: "cstr long_name = long_name"
  by (simp add: cstr_def long_name_def)

lemma free_entry_simps:
  "\<not> in_use free_entry"
  "filename free_entry = replicate 32 NUL"
  "free_entry\<lparr>filename := f, start_block := 0, fsize := 0, in_use := True\<rparr>
     = \<lparr>filename = f, start_block = 0, fsize = 0, in_use = True\<rparr>"
  by (simp_all add: free_entry_def)

lemma no_files_exist: "\<not> fs_exists_loop 0 fname os_init"
proof -
  have "\<not> in_use (file_table os_init ! k)" if "k < MAX_FILES" for k
    using that by (simp add: os_init_fields consts_simps free_entry_simps)
  then show ?thesis unfolding fs_exists_iff by blast
qed

lemma first_create:
  "fs_create fname os_init = (Inr 0, os_init\<lparr>file_table := (replicate 32 free_entry)
      [0 := \<lparr>filename = copy_name fname (replicate 32 NUL), start_block = 0, fsize = 0, in_use = True\<rparr>]\<rparr>)"
proof -
  have "fs_create fname os_init = (Inr 0, os_init\<lparr>file_table := (file_table os_init)[0 := new_entry fname 0 os_init]\<rparr>)"
    by (rule fs_create_fresh) (simp_all add: no_files_exist os_init_fields consts_simps free_entry_simps)
  then show ?thesis by (simp add: new_entry_def os_init_fields free_entry_simps)
qed

lemma long_created_fields:
  "file_table long_created = (replicate 32 free_entry)
      [0 := \<lparr>filename = copy_name long_name (replicate 32 NUL), start_block = 0, fsize = 0, in_use = True\<rparr>]"
  "fs_reachable long_created"
  unfolding long_created_def
  by (simp add: first_create, intro fs_reachable.intros)

lemma long_second_create:
  "fs_create long_name long_created = (Inr 1, long_created\<lparr>file_table := (file_table long_created)
      [1 := \<lparr>filename = copy_name long_name (replicate 32 NUL), start_block = 0, fsize = 0, in_use = True\<rparr>]\<rparr>)"
proof -
  have wf: "files_wf long_created" using long_created_fields(2) by (rule fs_reachable_wf)
  have stored: "cstr (copy_name long_name (replicate 32 NUL)) = replicate 31 (CHR ''a'')"
    using copy_name_props(3) [of "replicate 32 NUL" long_name]
    by (simp add: consts_simps cstr_long_name) (simp add: long_name_def)
  have "length (replicate 31 (CHR ''a'')) \<noteq> length long_name" by (simp add: long_name_def)
  then have ne: "replicate 31 (CHR ''a'') \<noteq> long_name" by metis
  have "\<not> (in_use (file_table long_created ! k) \<and> cstr (filename (file_table long_created ! k)) = cstr long_name)"
    if "k < MAX_FILES" for k
    using that ne by (cases "k = 0") (simp_all add: long_created_fields(1) consts_simps free_entry_simps stored cstr_long_name)
  then have nex: "\<not> fs_exists_loop 0 long_name long_created"
    unfolding fs_exists_cstr [OF wf] by blast
  have "fs_create long_name long_created
      = (Inr 1, long_created\<lparr>file_table := (file_table long_created)[1 := new_entry long_name 1 long_created]\<rparr>)"
    using nex by (intro fs_create_fresh) (simp_all add: long_created_fields(1) consts_simps free_entry_simps)
  then show ?thesis by (simp add: new_entry_def long_created_fields(1) free_entry_simps)
qed

text \<open>
  Claim C2, on the code. \<open>fs_create\<close> stores at most 31 characters of a name but
  compares 32, so a stored name of 31 characters never matches the 32-character name it
  was cut from: from the initialized system two calls of \<open>fs_create\<close> with the same
  32-character name both succeed, in entries 0 and 1, and the two entries in use hold
  the same name array.
\<close>

theorem long_name_created_twice:
  "length long_name = 32
   \<and> fst (fs_create long_name os_init) = Inr 0
   \<and> fst (fs_create long_name long_created) = Inr 1
   \<and> fs_reachable long_created_twice
   \<and> in_use (file_table long_created_twice ! 0)
   \<and> in_use (file_table long_created_twice ! 1)
   \<and> filename (file_table long_created_twice ! 0) = filename (file_table long_created_twice ! 1)
   \<and> cstr (filename (file_table long_created_twice ! 0)) = replicate 31 (CHR ''a'')"
proof -
  have r: "fs_reachable long_created_twice"
    unfolding long_created_twice_def using long_created_fields(2) by (rule fs_reachable.fs_created)
  have t: "file_table long_created_twice = (replicate 32 free_entry)
      [0 := \<lparr>filename = copy_name long_name (replicate 32 NUL), start_block = 0, fsize = 0, in_use = True\<rparr>,
       1 := \<lparr>filename = copy_name long_name (replicate 32 NUL), start_block = 0, fsize = 0, in_use = True\<rparr>]"
    by (simp add: long_created_twice_def long_second_create long_created_fields(1))
  have stored: "cstr (copy_name long_name (replicate 32 NUL)) = replicate 31 (CHR ''a'')"
    using copy_name_props(3) [of "replicate 32 NUL" long_name]
    by (simp add: consts_simps cstr_long_name) (simp add: long_name_def)
  show ?thesis
    using r by (simp add: t stored first_create long_second_create) (simp add: long_name_def)
qed

section \<open>Names that fit the name array\<close>

lemma names_unique_create:
  assumes wf: "files_wf s" and u: "names_unique s" and short: "length (cstr fname) \<le> MAX_FILENAME_LEN - 1"
  shows "names_unique (snd (fs_create fname s))"
proof (cases "(\<exists>i<MAX_FILES. \<not> in_use (file_table s ! i)) \<and> \<not> fs_exists_loop 0 fname s")
  case False
  then have "snd (fs_create fname s) = s"
    by (cases "\<exists>i<MAX_FILES. \<not> in_use (file_table s ! i)") (auto simp: fs_create_full fs_create_dup)
  with u show ?thesis by simp
next
  case True
  then obtain k where k: "k < MAX_FILES" "\<not> in_use (file_table s ! k)" "\<forall>j<k. in_use (file_table s ! j)"
    using least_index [of MAX_FILES "\<lambda>i. \<not> in_use (file_table s ! i)"] by auto
  from True have nex: "\<not> fs_exists_loop 0 fname s" by simp
  let ?t = "(file_table s)[k := new_entry fname k s]"
  have e: "snd (fs_create fname s) = s\<lparr>file_table := ?t\<rparr>"
    using fs_create_fresh [OF k nex] by simp
  from wf have len: "length (file_table s) = MAX_FILES" by (simp add: files_wf_def)
  have st: "cstr (filename (new_entry fname k s)) = cstr fname"
    using copy_name_props(3) [of "filename (file_table s ! k)" fname] files_wf_nth [OF wf k(1)] short
    by (simp add: new_entry_def consts_simps)
  have fresh: "cstr (filename (file_table s ! i)) \<noteq> cstr fname"
    if "i < MAX_FILES" "in_use (file_table s ! i)" for i
    using nex that unfolding fs_exists_cstr [OF wf] by blast
  have "i = j" if ij: "i < MAX_FILES" "j < MAX_FILES" "in_use (?t ! i)" "in_use (?t ! j)"
      "cstr (filename (?t ! i)) = cstr (filename (?t ! j))" for i j
  proof (cases "i = k")
    case ik: True
    show ?thesis
    proof (rule ccontr)
      assume "i \<noteq> j"
      with ik ij len k(1) have "in_use (file_table s ! j)" "cstr fname = cstr (filename (file_table s ! j))"
        using st by simp_all
      with fresh [OF ij(2)] show False by simp
    qed
  next
    case ik: False
    show ?thesis
    proof (cases "j = k")
      case True
      with ik ij len k(1) have "in_use (file_table s ! i)" "cstr (filename (file_table s ! i)) = cstr fname"
        using st by simp_all
      with fresh [OF ij(1)] show ?thesis by simp
    next
      case False
      with ik ij have "in_use (file_table s ! i)" "in_use (file_table s ! j)"
        "cstr (filename (file_table s ! i)) = cstr (filename (file_table s ! j))" by simp_all
      with u ij(1,2) show ?thesis unfolding names_unique_def by blast
    qed
  qed
  then show ?thesis unfolding e names_unique_def by simp
qed

lemma names_unique_delete:
  assumes u: "names_unique s"
  shows "names_unique (snd (fs_delete fname s))"
proof -
  from fs_delete_loop_cases [of 0 fname s] show ?thesis
  proof
    assume "snd (fs_delete_loop 0 fname s) = s" with u show ?thesis by (simp add: fs_delete_def)
  next
    assume "\<exists>k<MAX_FILES. snd (fs_delete_loop 0 fname s)
         = s\<lparr>file_table := (file_table s)[k := (file_table s ! k)\<lparr>in_use := False\<rparr>]\<rparr>"
    then obtain k where
      e: "snd (fs_delete fname s) = s\<lparr>file_table := (file_table s)[k := (file_table s ! k)\<lparr>in_use := False\<rparr>]\<rparr>"
      by (auto simp: fs_delete_def)
    let ?t = "(file_table s)[k := (file_table s ! k)\<lparr>in_use := False\<rparr>]"
    have a: "in_use (?t ! i) \<Longrightarrow> in_use (file_table s ! i) \<and> filename (?t ! i) = filename (file_table s ! i)" for i
      by (cases "i = k"; cases "k < length (file_table s)") (simp_all add: list_update_beyond)
    show ?thesis unfolding e names_unique_def using u a
      by (simp add: names_unique_def) metis
  qed
qed

lemma names_unique_init: "names_unique os_init"
  by (simp add: names_unique_def os_init_fields consts_simps free_entry_simps)

text \<open>
  As long as every name created fits the name array, no two entries in use hold the
  same name.
\<close>

lemma short_names_unique: "fs_reachable_short s \<Longrightarrow> files_wf s \<and> names_unique s"
  by (induction rule: fs_reachable_short.induct)
    (simp_all add: files_wf_init names_unique_init files_wf_create files_wf_delete
      names_unique_create names_unique_delete)

section \<open>Filling the file table\<close>

lemma files_upto_create:
  assumes u: "files_upto nms s" and lt: "length nms < MAX_FILES"
    and nm: "cstr nm = nm" "length nm \<le> 31" "nm \<notin> set nms"
  shows "fst (fs_create nm s) = Inr (length nms)"
    and "files_upto (nms @ [nm]) (snd (fs_create nm s))"
proof -
  let ?k = "length nms"
  from u have wf: "files_wf s"
    and used: "\<And>i. i < ?k \<Longrightarrow> in_use (file_table s ! i) \<and> cstr (filename (file_table s ! i)) = nms ! i"
    and free: "\<And>i. ?k \<le> i \<Longrightarrow> i < MAX_FILES \<Longrightarrow> \<not> in_use (file_table s ! i)"
    using lt by (auto simp: files_upto_def split: if_splits)
  have "\<not> (in_use (file_table s ! i) \<and> cstr (filename (file_table s ! i)) = cstr nm)"
    if "i < MAX_FILES" for i
  proof (cases "i < ?k")
    case True
    with used [OF True] nm(1,3) show ?thesis by (auto simp: in_set_conv_nth)
  next
    case False
    with free [of i] that show ?thesis by simp
  qed
  then have nex: "\<not> fs_exists_loop 0 nm s" unfolding fs_exists_cstr [OF wf] by blast
  have e: "fs_create nm s = (Inr ?k, s\<lparr>file_table := (file_table s)[?k := new_entry nm ?k s]\<rparr>)"
    using lt free [of ?k] used nex by (intro fs_create_fresh) auto
  then show "fst (fs_create nm s) = Inr ?k" by simp
  have wf': "files_wf (snd (fs_create nm s))" using wf by (rule files_wf_create)
  from wf have len: "length (file_table s) = MAX_FILES" by (simp add: files_wf_def)
  have st: "cstr (filename (new_entry nm ?k s)) = nm"
    using copy_name_props(3) [of "filename (file_table s ! ?k)" nm] files_wf_nth [OF wf lt] nm(1,2)
    by (simp add: new_entry_def)
  have iu: "in_use (new_entry nm ?k s)" by (simp add: new_entry_def)
  have "if i < length (nms @ [nm])
        then in_use (file_table (snd (fs_create nm s)) ! i)
             \<and> cstr (filename (file_table (snd (fs_create nm s)) ! i)) = (nms @ [nm]) ! i
        else \<not> in_use (file_table (snd (fs_create nm s)) ! i)" if "i < MAX_FILES" for i
  proof -
    consider "i < ?k" | "i = ?k" | "?k < i" by linarith
    then show ?thesis
    proof cases
      case 1
      with used [OF 1] show ?thesis by (simp add: e nth_append)
    next
      case 2
      with lt len st iu show ?thesis by (simp add: e)
    next
      case 3
      with free [of i] that show ?thesis by (simp add: e)
    qed
  qed
  with wf' lt show "files_upto (nms @ [nm]) (snd (fs_create nm s))"
    by (simp add: files_upto_def)
qed

lemma fs_create_many_upto:
  "files_upto done s \<Longrightarrow> distinct (done @ nms) \<Longrightarrow> length done + length nms \<le> MAX_FILES
   \<Longrightarrow> (\<forall>n\<in>set nms. cstr n = n \<and> length n \<le> 31)
   \<Longrightarrow> files_upto (done @ nms) (snd (fs_create_many nms s))
       \<and> fst (fs_create_many nms s) = map Inr [length done..<length done + length nms]"
proof (induction nms arbitrary: "done" s)
  case Nil
  then show ?case by simp
next
  case (Cons nm nms)
  from Cons.prems have lt: "length done < MAX_FILES" and nm: "cstr nm = nm" "length nm \<le> 31" "nm \<notin> set done"
    by auto
  note c = files_upto_create [OF Cons.prems(1) lt nm]
  have "files_upto ((done @ [nm]) @ nms) (snd (fs_create_many nms (snd (fs_create nm s))))
       \<and> fst (fs_create_many nms (snd (fs_create nm s)))
          = map Inr [length (done @ [nm])..<length (done @ [nm]) + length nms]"
    using Cons.prems by (intro Cons.IH c(2)) auto
  then have f: "files_upto (done @ nm # nms) (snd (fs_create_many nms (snd (fs_create nm s))))"
    and r: "fst (fs_create_many nms (snd (fs_create nm s)))
          = map Inr [Suc (length done)..<Suc (length done + length nms)]"
    by (simp_all del: upt_Suc)
  have u: "[length done..<Suc (length done + length nms)]
      = length done # [Suc (length done)..<Suc (length done + length nms)]"
    by (rule upt_conv_Cons) simp
  show ?case
    using f r c(1) by (simp add: split_beta u del: upt_Suc)
qed

lemma file_names_props:
  "length file_names = MAX_FILES"
  "distinct file_names"
  "\<forall>n\<in>set file_names. cstr n = n \<and> length n \<le> 31"
proof -
  show "length file_names = MAX_FILES" by (simp add: file_names_def)
  have "inj_on (\<lambda>i. replicate i (CHR ''x'')) (set [0..<MAX_FILES])"
    by (rule inj_onI) (metis length_replicate)
  then show "distinct file_names" by (simp add: file_names_def distinct_map)
  show "\<forall>n\<in>set file_names. cstr n = n \<and> length n \<le> 31"
    by (auto simp: file_names_def cstr_def consts_simps)
qed

lemma files_upto_init: "files_upto [] os_init"
  by (simp add: files_upto_def files_wf_init os_init_fields consts_simps free_entry_simps)

lemma full_table_props:
  "files_upto file_names full_table"
  "fst (fs_create_many file_names os_init) = map Inr [0..<MAX_FILES]"
  "fs_reachable full_table"
proof -
  from fs_create_many_upto [OF files_upto_init, of file_names] file_names_props
  show "files_upto file_names full_table"
    and "fst (fs_create_many file_names os_init) = map Inr [0..<MAX_FILES]"
    by (simp_all add: full_table_def)
  have "fs_reachable s \<Longrightarrow> fs_reachable (snd (fs_create_many nms s))" for nms s
    by (induction nms arbitrary: s) (simp_all add: split_beta fs_reachable.fs_created)
  then show "fs_reachable full_table"
    unfolding full_table_def using fs_reachable.fs_init by blast
qed

lemma file_a_created_fields:
  "file_table file_a_created = (replicate 32 free_entry)
      [0 := \<lparr>filename = copy_name ''a'' (replicate 32 NUL), start_block = 0, fsize = 0, in_use = True\<rparr>]"
  "fs_reachable file_a_created"
  unfolding file_a_created_def
  by (simp add: first_create, intro fs_reachable.intros)

text \<open>
  Example: on the full table of \<open>file_names\<close> a fresh name and a name in use both
  fail with \<open>TableFull\<close>; after \<open>fs_create("a")\<close> a second one fails with
  \<open>AlreadyExists\<close>; on the initialized system it takes entry 0.
\<close>

theorem fs_create_capacity_then_uniqueness_witness:
  "files_wf full_table \<and> files_wf file_a_created \<and> files_wf os_init
   \<and> fs_create ''fresh'' full_table = (Inl TableFull, full_table)
   \<and> fs_create ''xxx'' full_table = (Inl TableFull, full_table)
   \<and> fs_create ''a'' file_a_created = (Inl AlreadyExists, file_a_created)
   \<and> fst (fs_create ''a'' os_init) = Inr 0
   \<and> cstr (filename (file_table file_a_created ! 0)) = ''a''"
proof -
  have wf1: "files_wf full_table" using full_table_props(3) by (rule fs_reachable_wf)
  have wf2: "files_wf file_a_created" using file_a_created_fields(2) by (rule fs_reachable_wf)
  have full: "\<forall>i<MAX_FILES. in_use (file_table full_table ! i)"
    using full_table_props(1) file_names_props(1) by (simp add: files_upto_def)
  from fs_create_capacity_then_uniqueness [OF wf1, of "''fresh''"] full
  have a: "fs_create ''fresh'' full_table = (Inl TableFull, full_table)" by blast
  from fs_create_capacity_then_uniqueness [OF wf1, of "''xxx''"] full
  have a': "fs_create ''xxx'' full_table = (Inl TableFull, full_table)" by blast
  have ca: "cstr ''a'' = ''a''" by (simp add: cstr_def)
  have st: "cstr (copy_name ''a'' (replicate 32 NUL)) = ''a''"
    using copy_name_props(3) [of "replicate 32 NUL" "''a''"] by (simp add: consts_simps ca)
  have f1: "\<exists>i<MAX_FILES. \<not> in_use (file_table file_a_created ! i)"
  proof (intro exI conjI)
    show "1 < MAX_FILES" by (simp add: consts_simps)
    show "\<not> in_use (file_table file_a_created ! 1)"
      by (simp add: file_a_created_fields(1) free_entry_simps)
  qed
  have d1: "\<exists>k<MAX_FILES. in_use (file_table file_a_created ! k)
      \<and> cstr (filename (file_table file_a_created ! k)) = cstr ''a''"
  proof (intro exI conjI)
    show "0 < MAX_FILES" by (simp add: consts_simps)
    show "in_use (file_table file_a_created ! 0)" by (simp add: file_a_created_fields(1))
    show "cstr (filename (file_table file_a_created ! 0)) = cstr ''a''"
      by (simp add: file_a_created_fields(1) st ca)
  qed
  from fs_create_capacity_then_uniqueness [OF wf2, of "''a''"] f1 d1
  have b: "fs_create ''a'' file_a_created = (Inl AlreadyExists, file_a_created)" by blast
  have h0: "0 < MAX_FILES \<and> \<not> in_use (file_table os_init ! 0) \<and> (\<forall>j<0. in_use (file_table os_init ! j))
        \<and> (\<forall>k<MAX_FILES. in_use (file_table os_init ! k) \<longrightarrow> cstr (filename (file_table os_init ! k)) \<noteq> cstr ''a'')"
    by (simp add: os_init_fields consts_simps free_entry_simps)
  from fs_create_capacity_then_uniqueness [OF files_wf_init, of "''a''" 0] h0
  have c: "fst (fs_create ''a'' os_init) = Inr 0" by simp
  have "cstr (filename (file_table file_a_created ! 0)) = ''a''"
    by (simp add: file_a_created_fields(1) st)
  with wf1 wf2 files_wf_init a a' b c show ?thesis by simp
qed


end
